theory Spec2Isabelle
  imports Complex_Main "HOL-Library.Multiset"
begin

section \<open>Values\<close>

text \<open>
  A double is modelled with its three kinds of special value written out. A finite double
  is represented by the real number it denotes; the sign of zero is not modelled. The
  arithmetic on doubles rounds: see \<open>dadd\<close> and \<open>dmul\<close> below.
\<close>

datatype double = NaN | PInf | NInf | Fin real

text \<open>
  The payload of a function value: the bytecode of a compiled program or the name of a
  native callable. A machine word of bytecode (\<open>spn_uword\<close>) is a natural number.
\<close>

type_synonym spn_uword = nat

datatype SpnFunction = Script "spn_uword list" | Native string

text \<open>
  The tagged union \<open>SpnValue\<close>. Integers are C \<open>long\<close>s; they are modelled as
  unbounded integers, and no operation modelled below can overflow on values that a
  \<open>long\<close> can hold together with a string or array that fits in memory. A string is
  its \<open>len\<close> bytes (the terminating NUL that \<open>cstr\<close> carries in memory is not part
  of the list); bytes may be NUL. Arrays are carried by value.
\<close>

datatype SpnValue =
    SpnNil
  | SpnBool bool
  | SpnInt int
  | SpnFloat double
  | SpnString string
  | SpnArray "SpnValue list"
  | SpnHashMap "(SpnValue \<times> SpnValue) list"
  | SpnFunc SpnFunction
  | SpnUserInfo nat
  | SpnWeakUserInfo nat

fun isbool :: "SpnValue \<Rightarrow> bool" where
  "isbool (SpnBool b) = True"
| "isbool v = False"

fun isint :: "SpnValue \<Rightarrow> bool" where
  "isint (SpnInt i) = True"
| "isint v = False"

fun isfloat :: "SpnValue \<Rightarrow> bool" where
  "isfloat (SpnFloat d) = True"
| "isfloat v = False"

definition isnum :: "SpnValue \<Rightarrow> bool" where
  "isnum v = (isint v \<or> isfloat v)"

fun isstring :: "SpnValue \<Rightarrow> bool" where
  "isstring (SpnString s) = True"
| "isstring v = False"

fun isarray :: "SpnValue \<Rightarrow> bool" where
  "isarray (SpnArray a) = True"
| "isarray v = False"

fun isfunc :: "SpnValue \<Rightarrow> bool" where
  "isfunc (SpnFunc f) = True"
| "isfunc v = False"

text \<open>An argument of a C format string: \<open>const void *args[]\<close> points to C strings or ints.\<close>

datatype carg = CStr string | CInt int

section \<open>The context (ctx.c)\<close>

datatype spn_error_type =
    SPN_ERROR_OK
  | SPN_ERROR_SYNTAX
  | SPN_ERROR_SEMANTIC
  | SPN_ERROR_RUNTIME
  | SPN_ERROR_GENERIC

text \<open>
  \<open>struct SpnContext\<close>. The parser, the compiler and the virtual machine are not part of
  these sources: their states are the type parameters \<open>'p\<close>, \<open>'c\<close> and \<open>'v\<close>. A node
  of \<open>bclist\<close> is a bytecode with its length.
\<close>

record ('p, 'c, 'v) SpnContext =
  parser :: 'p
  cmp :: 'c
  vm :: 'v
  bclist :: "(spn_uword list \<times> nat) list"
  errtype :: spn_error_type
  errmsg :: "string option"
  info :: "nat option"

text \<open>
  The collaborators that ctx.c and rtlb.c call and that these sources do not contain, taken
  as parameters. A pointer result that may be \<open>NULL\<close> is an option. \<open>parser_errmsg\<close> reads
  \<open>parser->errmsg\<close>. The virtual machine receives the content of the result slot and returns
  the content it leaves there; it acts on its own state only. \<open>spn_string_format_obj\<close> gives
  \<open>Inl\<close> the error message or \<open>Inr\<close> the expansion. \<open>spn_type_name\<close> is applied to the
  value whose type tag it names. \<open>fopen_rb\<close> is \<open>fopen(fname, "rb")\<close> followed by the
  size computation: the bytes of the file, \<open>None\<close> when it cannot be opened; \<open>fread_fails\<close>
  tells whether reading the opened file fails; \<open>strerror_errno\<close> is the text of
  \<open>strerror(errno)\<close> after the last operation on the named file.
  \<open>spn_ctx_compile_expr\<close> is the entry point of the context that rtlb.c calls and ctx.c
  does not define. The last two fields belong to the C implementation: \<open>double_of_real r\<close>
  is the double to which it rounds the exact result \<open>r\<close> of an operation or of a conversion
  (an infinity when the result overflows), and \<open>LONG_MAX\<close> is the largest \<open>long\<close>.
\<close>

record ('p, 'c, 'v, 'a) collab =
  spn_parser_parse :: "'p \<Rightarrow> string \<Rightarrow> 'a option \<times> 'p"
  parser_errmsg :: "'p \<Rightarrow> string option"
  spn_compiler_compile :: "'c \<Rightarrow> 'a \<Rightarrow> (spn_uword list \<times> nat) option \<times> 'c"
  spn_compiler_errmsg :: "'c \<Rightarrow> string option"
  spn_vm_exec :: "'v \<Rightarrow> spn_uword list \<Rightarrow> SpnValue \<Rightarrow> int \<times> SpnValue \<times> 'v"
  spn_vm_callfunc :: "'v \<Rightarrow> SpnValue \<Rightarrow> SpnValue \<Rightarrow> SpnValue list \<Rightarrow> int \<times> SpnValue \<times> 'v"
  spn_vm_geterrmsg :: "'v \<Rightarrow> string option"
  spn_vm_seterrmsg :: "'v \<Rightarrow> string \<Rightarrow> carg list \<Rightarrow> 'v"
  spn_read_text_file :: "string \<Rightarrow> string option"
  spn_read_binary_file :: "string \<Rightarrow> (spn_uword list \<times> nat) option"
  sizeof_uword :: nat
  spn_string_format_obj :: "string \<Rightarrow> SpnValue list \<Rightarrow> string + string"
  spn_type_name :: "SpnValue \<Rightarrow> string"
  fopen_rb :: "string \<Rightarrow> string option"
  fread_fails :: "string \<Rightarrow> bool"
  strerror_errno :: "string \<Rightarrow> string"
  spn_ctx_compile_expr ::
    "('p, 'c, 'v) SpnContext \<Rightarrow> string \<Rightarrow> spn_uword list option \<times> ('p, 'c, 'v) SpnContext"
  double_of_real :: "real \<Rightarrow> double"
  LONG_MAX :: int

definition spn_ctx_geterrtype :: "('p, 'c, 'v) SpnContext \<Rightarrow> spn_error_type" where
  "spn_ctx_geterrtype ctx = errtype ctx"

definition spn_ctx_geterrmsg ::
  "('p, 'c, 'v, 'a) collab \<Rightarrow> ('p, 'c, 'v) SpnContext \<Rightarrow> string option" where
  "spn_ctx_geterrmsg K ctx =
     (case errtype ctx of
        SPN_ERROR_OK \<Rightarrow> None
      | SPN_ERROR_SYNTAX \<Rightarrow> parser_errmsg K (parser ctx)
      | SPN_ERROR_SEMANTIC \<Rightarrow> spn_compiler_errmsg K (cmp ctx)
      | SPN_ERROR_RUNTIME \<Rightarrow> spn_vm_geterrmsg K (vm ctx)
      | SPN_ERROR_GENERIC \<Rightarrow> errmsg ctx)"

definition prepend_bytecode_list ::
  "('p, 'c, 'v) SpnContext \<Rightarrow> spn_uword list \<Rightarrow> nat \<Rightarrow> ('p, 'c, 'v) SpnContext" where
  "prepend_bytecode_list ctx bc len = ctx\<lparr>bclist := (bc, len) # bclist ctx\<rparr>"

definition spn_ctx_loadstring ::
  "('p, 'c, 'v, 'a) collab \<Rightarrow> ('p, 'c, 'v) SpnContext \<Rightarrow> string
     \<Rightarrow> spn_uword list option \<times> ('p, 'c, 'v) SpnContext" where
  "spn_ctx_loadstring K ctx str =
     (let ctx1 = ctx\<lparr>errtype := SPN_ERROR_OK\<rparr>;
          (ast, p) = spn_parser_parse K (parser ctx1) str;
          ctx2 = ctx1\<lparr>parser := p\<rparr>
      in case ast of
           None \<Rightarrow> (None, ctx2\<lparr>errtype := SPN_ERROR_SYNTAX\<rparr>)
         | Some t \<Rightarrow>
             (let (bc, c) = spn_compiler_compile K (cmp ctx2) t;
                  ctx3 = ctx2\<lparr>cmp := c\<rparr>
              in case bc of
                   None \<Rightarrow> (None, ctx3\<lparr>errtype := SPN_ERROR_SEMANTIC\<rparr>)
                 | Some (w, len) \<Rightarrow> (Some w, prepend_bytecode_list ctx3 w len)))"

definition spn_ctx_loadsrcfile ::
  "('p, 'c, 'v, 'a) collab \<Rightarrow> ('p, 'c, 'v) SpnContext \<Rightarrow> string
     \<Rightarrow> spn_uword list option \<times> ('p, 'c, 'v) SpnContext" where
  "spn_ctx_loadsrcfile K ctx fname =
     (let ctx1 = ctx\<lparr>errtype := SPN_ERROR_OK\<rparr>
      in case spn_read_text_file K fname of
           None \<Rightarrow>
             (None, ctx1\<lparr>errtype := SPN_ERROR_GENERIC,
                          errmsg := Some ''Sparkling: I/O error: could not read source file''\<rparr>)
         | Some src \<Rightarrow> spn_ctx_loadstring K ctx1 src)"

definition spn_ctx_loadobjfile ::
  "('p, 'c, 'v, 'a) collab \<Rightarrow> ('p, 'c, 'v) SpnContext \<Rightarrow> string
     \<Rightarrow> spn_uword list option \<times> ('p, 'c, 'v) SpnContext" where
  "spn_ctx_loadobjfile K ctx fname =
     (let ctx1 = ctx\<lparr>errtype := SPN_ERROR_OK\<rparr>
      in case spn_read_binary_file K fname of
           None \<Rightarrow>
             (None, ctx1\<lparr>errtype := SPN_ERROR_GENERIC,
                          errmsg := Some ''Sparkling: I/O error: could not read object file''\<rparr>)
         | Some (bc, filesize) \<Rightarrow>
             (Some bc, prepend_bytecode_list ctx1 bc (filesize div sizeof_uword K)))"

definition spn_ctx_execbytecode ::
  "('p, 'c, 'v, 'a) collab \<Rightarrow> ('p, 'c, 'v) SpnContext \<Rightarrow> spn_uword list \<Rightarrow> SpnValue
     \<Rightarrow> int \<times> SpnValue \<times> ('p, 'c, 'v) SpnContext" where
  "spn_ctx_execbytecode K ctx bc ret =
     (let ctx1 = ctx\<lparr>errtype := SPN_ERROR_OK\<rparr>;
          (status, ret', v) = spn_vm_exec K (vm ctx1) bc ret;
          ctx2 = ctx1\<lparr>vm := v\<rparr>
      in (status, ret', if status \<noteq> 0 then ctx2\<lparr>errtype := SPN_ERROR_RUNTIME\<rparr> else ctx2))"

definition spn_ctx_execstring ::
  "('p, 'c, 'v, 'a) collab \<Rightarrow> ('p, 'c, 'v) SpnContext \<Rightarrow> string \<Rightarrow> SpnValue
     \<Rightarrow> int \<times> SpnValue \<times> ('p, 'c, 'v) SpnContext" where
  "spn_ctx_execstring K ctx str ret =
     (case spn_ctx_loadstring K ctx str of
        (None, ctx1) \<Rightarrow> (- 1, ret, ctx1)
      | (Some bc, ctx1) \<Rightarrow> spn_ctx_execbytecode K ctx1 bc ret)"

definition spn_ctx_execsrcfile ::
  "('p, 'c, 'v, 'a) collab \<Rightarrow> ('p, 'c, 'v) SpnContext \<Rightarrow> string \<Rightarrow> SpnValue
     \<Rightarrow> int \<times> SpnValue \<times> ('p, 'c, 'v) SpnContext" where
  "spn_ctx_execsrcfile K ctx fname ret =
     (case spn_ctx_loadsrcfile K ctx fname of
        (None, ctx1) \<Rightarrow> (- 1, ret, ctx1)
      | (Some bc, ctx1) \<Rightarrow> spn_ctx_execbytecode K ctx1 bc ret)"

definition spn_ctx_execobjfile ::
  "('p, 'c, 'v, 'a) collab \<Rightarrow> ('p, 'c, 'v) SpnContext \<Rightarrow> string \<Rightarrow> SpnValue
     \<Rightarrow> int \<times> SpnValue \<times> ('p, 'c, 'v) SpnContext" where
  "spn_ctx_execobjfile K ctx fname ret =
     (case spn_ctx_loadobjfile K ctx fname of
        (None, ctx1) \<Rightarrow> (- 1, ret, ctx1)
      | (Some bc, ctx1) \<Rightarrow> spn_ctx_execbytecode K ctx1 bc ret)"

definition spn_ctx_callfunc ::
  "('p, 'c, 'v, 'a) collab \<Rightarrow> ('p, 'c, 'v) SpnContext \<Rightarrow> SpnValue \<Rightarrow> SpnValue
     \<Rightarrow> SpnValue list \<Rightarrow> int \<times> SpnValue \<times> ('p, 'c, 'v) SpnContext" where
  "spn_ctx_callfunc K ctx func ret argv =
     (let ctx1 = ctx\<lparr>errtype := SPN_ERROR_OK\<rparr>;
          (status, ret', v) = spn_vm_callfunc K (vm ctx1) func ret argv;
          ctx2 = ctx1\<lparr>vm := v\<rparr>
      in (status, ret', if status \<noteq> 0 then ctx2\<lparr>errtype := SPN_ERROR_RUNTIME\<rparr> else ctx2))"

definition spn_ctx_runtime_error ::
  "('p, 'c, 'v, 'a) collab \<Rightarrow> ('p, 'c, 'v) SpnContext \<Rightarrow> string \<Rightarrow> carg list
     \<Rightarrow> ('p, 'c, 'v) SpnContext" where
  "spn_ctx_runtime_error K ctx fmt args = ctx\<lparr>vm := spn_vm_seterrmsg K (vm ctx) fmt args\<rparr>"

section \<open>The run-time library (rtlb.c)\<close>

subsection \<open>Accessors\<close>

text \<open>
  The accessor macros of the value type. The sources apply an accessor only after the
  matching type test; the value given here for any other tag is never used.
\<close>

fun boolvalue :: "SpnValue \<Rightarrow> bool" where
  "boolvalue (SpnBool b) = b"
| "boolvalue v = False"

fun intvalue :: "SpnValue \<Rightarrow> int" where
  "intvalue (SpnInt i) = i"
| "intvalue v = 0"

fun floatvalue :: "SpnValue \<Rightarrow> double" where
  "floatvalue (SpnFloat d) = d"
| "floatvalue v = NaN"

fun stringvalue :: "SpnValue \<Rightarrow> string" where
  "stringvalue (SpnString s) = s"
| "stringvalue v = []"

fun arrayvalue :: "SpnValue \<Rightarrow> SpnValue list" where
  "arrayvalue (SpnArray a) = a"
| "arrayvalue v = []"

subsection \<open>C strings\<close>

definition NUL :: char where
  "NUL = CHR 0x00"

text \<open>
  \<open>cstr s\<close> is what a C string function reads at a pointer to the bytes \<open>s\<close> that are
  followed by the terminating NUL: the bytes before the first NUL.
\<close>

definition cstr :: "string \<Rightarrow> string" where
  "cstr s = takeWhile (\<lambda>c. c \<noteq> NUL) s"

text \<open>
  \<open>strstr\<close> of the C library on two C strings: the offset of the first occurrence of the
  needle, \<open>None\<close> for \<open>NULL\<close>. An empty needle is found at offset 0.
\<close>

fun strstr :: "string \<Rightarrow> string \<Rightarrow> nat option" where
  "strstr [] n = (if n = [] then Some 0 else None)"
| "strstr (c # h) n =
     (if take (length n) (c # h) = n then Some 0 else map_option Suc (strstr h n))"

subsection \<open>substr\<close>

definition rtlb_aux_substr ::
  "('p, 'c, 'v, 'a) collab \<Rightarrow> SpnValue \<Rightarrow> string \<Rightarrow> int \<Rightarrow> int \<Rightarrow> ('p, 'c, 'v) SpnContext
     \<Rightarrow> int \<times> SpnValue \<times> ('p, 'c, 'v) SpnContext" where
  "rtlb_aux_substr K ret str begin len ctx =
     (let slen = int (length str) in
      if begin < 0 \<or> begin > slen then
        (- 1, ret, spn_ctx_runtime_error K ctx ''starting index is negative or too high'' [])
      else if len < 0 \<or> len > slen then
        (- 2, ret, spn_ctx_runtime_error K ctx ''length is negative or too big'' [])
      else if begin + len > slen then
        (- 3, ret, spn_ctx_runtime_error K ctx ''end of substring is out of bounds'' [])
      else (0, SpnString (take (nat len) (drop (nat begin) str)), ctx))"

definition rtlb_substr ::
  "('p, 'c, 'v, 'a) collab \<Rightarrow> SpnValue \<Rightarrow> SpnValue list \<Rightarrow> ('p, 'c, 'v) SpnContext
     \<Rightarrow> int \<times> SpnValue \<times> ('p, 'c, 'v) SpnContext" where
  "rtlb_substr K ret argv ctx =
     (if length argv \<noteq> 3 then
        (- 1, ret, spn_ctx_runtime_error K ctx ''exactly three arguments are required'' [])
      else if \<not> isstring (argv ! 0) then
        (- 2, ret, spn_ctx_runtime_error K ctx ''first argument must be a string'' [])
      else if \<not> isint (argv ! 1) \<or> \<not> isint (argv ! 2) then
        (- 2, ret, spn_ctx_runtime_error K ctx ''second and third argument must be integers'' [])
      else rtlb_aux_substr K ret (stringvalue (argv ! 0)) (intvalue (argv ! 1))
             (intvalue (argv ! 2)) ctx)"

subsection \<open>split and join\<close>

text \<open>
  The loop of \<open>rtlb_split\<close>. The pointer \<open>s\<close> into the haystack is the list of the bytes
  from \<open>s\<close> to the end of the haystack; \<open>t\<close> is the offset of the match from \<open>s\<close>. The
  needle is searched as a C string but skipped by its length: when \<open>s\<close> would move past
  the terminating NUL of the haystack the next \<open>strstr\<close> reads outside the buffer, and the
  loop has no defined result (\<open>None\<close>).
\<close>

partial_function (option) split_loop :: "string \<Rightarrow> string \<Rightarrow> SpnValue list \<Rightarrow> SpnValue list option" where
  "split_loop needle s arr =
     (case strstr (cstr s) (cstr needle) of
        None \<Rightarrow> Some (arr @ [SpnString s])
      | Some t \<Rightarrow>
          if t + length needle \<le> length s
          then split_loop needle (drop (t + length needle) s) (arr @ [SpnString (take t s)])
          else None)"

definition rtlb_split ::
  "('p, 'c, 'v, 'a) collab \<Rightarrow> SpnValue \<Rightarrow> SpnValue list \<Rightarrow> ('p, 'c, 'v) SpnContext
     \<Rightarrow> (int \<times> SpnValue \<times> ('p, 'c, 'v) SpnContext) option" where
  "rtlb_split K ret argv ctx =
     (if length argv \<noteq> 2 then
        Some (- 1, ret, spn_ctx_runtime_error K ctx ''exactly two arguments are required'' [])
      else if \<not> isstring (argv ! 0) \<or> \<not> isstring (argv ! 1) then
        Some (- 2, ret, spn_ctx_runtime_error K ctx ''arguments must be strings'' [])
      else if length (stringvalue (argv ! 1)) = 0 then
        Some (- 3, ret, spn_ctx_runtime_error K ctx ''cannot split on empty string'' [])
      else map_option (\<lambda>arr. (0, SpnArray arr, ctx))
             (split_loop (stringvalue (argv ! 1)) (stringvalue (argv ! 0)) []))"

text \<open>
  The loop of \<open>rtlb_join\<close> over the elements from index \<open>i\<close> on, with the buffer built so
  far; \<open>None\<close> when an element is not a string.
\<close>

fun join_loop :: "SpnValue list \<Rightarrow> string \<Rightarrow> nat \<Rightarrow> string \<Rightarrow> string option" where
  "join_loop [] delim i buf = Some buf"
| "join_loop (v # vs) delim i buf =
     (if \<not> isstring v then None
      else join_loop vs delim (Suc i)
             (if i > 0 then buf @ delim @ stringvalue v else buf @ stringvalue v))"

definition rtlb_join ::
  "('p, 'c, 'v, 'a) collab \<Rightarrow> SpnValue \<Rightarrow> SpnValue list \<Rightarrow> ('p, 'c, 'v) SpnContext
     \<Rightarrow> int \<times> SpnValue \<times> ('p, 'c, 'v) SpnContext" where
  "rtlb_join K ret argv ctx =
     (if length argv \<noteq> 2 then
        (- 1, ret, spn_ctx_runtime_error K ctx ''exactly two arguments are required'' [])
      else if \<not> isarray (argv ! 0) then
        (- 2, ret, spn_ctx_runtime_error K ctx ''first argument must be an array'' [])
      else if \<not> isstring (argv ! 1) then
        (- 2, ret, spn_ctx_runtime_error K ctx ''second argument must be a string'' [])
      else (case join_loop (arrayvalue (argv ! 0)) (stringvalue (argv ! 1)) 0 [] of
              None \<Rightarrow> (- 3, ret, spn_ctx_runtime_error K ctx ''array must contain strings only'' [])
            | Some buf \<Rightarrow> (0, SpnString buf, ctx)))"

subsection \<open>printf\<close>

text \<open>
  \<open>out\<close> is what has been written to \<open>stdout\<close>. \<open>fputs\<close> writes the C string at
  \<open>res->cstr\<close>; the value returned is \<open>res->len\<close>.
\<close>

definition rtlb_printf ::
  "('p, 'c, 'v, 'a) collab \<Rightarrow> SpnValue \<Rightarrow> SpnValue list \<Rightarrow> ('p, 'c, 'v) SpnContext \<Rightarrow> string
     \<Rightarrow> int \<times> SpnValue \<times> ('p, 'c, 'v) SpnContext \<times> string" where
  "rtlb_printf K ret argv ctx out =
     (if length argv < 1 then
        (- 1, ret, spn_ctx_runtime_error K ctx ''at least one argument is required'' [], out)
      else if \<not> isstring (argv ! 0) then
        (- 2, ret, spn_ctx_runtime_error K ctx ''first argument must be a format string'' [], out)
      else (case spn_string_format_obj K (stringvalue (argv ! 0)) (tl argv) of
              Inr res \<Rightarrow> (0, SpnInt (int (length res)), ctx, out @ cstr res)
            | Inl emsg \<Rightarrow>
                (- 3, ret,
                 spn_ctx_runtime_error K ctx ''error in format string: %s'' [CStr emsg], out)))"

subsection \<open>readfile\<close>


subsection \<open>concat\<close>



subsection \<open>range\<close>

text \<open>
  Comparison and arithmetic of doubles: \<open>x <= y\<close>, \<open>x + y\<close> and \<open>x * y\<close>. A comparison with
  a NaN is false. The sum and the product of two finite doubles are the exact result
  rounded by the implementation (\<open>fl\<close>, which is \<open>double_of_real\<close>): each operation is
  rounded on its own, to the format of a double.
\<close>

fun dle :: "double \<Rightarrow> double \<Rightarrow> bool" where
  "dle NaN y = False"
| "dle x NaN = False"
| "dle NInf y = True"
| "dle x PInf = True"
| "dle PInf y = False"
| "dle x NInf = False"
| "dle (Fin a) (Fin b) = (a \<le> b)"

fun dadd :: "(real \<Rightarrow> double) \<Rightarrow> double \<Rightarrow> double \<Rightarrow> double" where
  "dadd fl NaN y = NaN"
| "dadd fl x NaN = NaN"
| "dadd fl PInf NInf = NaN"
| "dadd fl NInf PInf = NaN"
| "dadd fl PInf y = PInf"
| "dadd fl NInf y = NInf"
| "dadd fl x PInf = PInf"
| "dadd fl x NInf = NInf"
| "dadd fl (Fin a) (Fin b) = fl (a + b)"

fun dmul :: "(real \<Rightarrow> double) \<Rightarrow> double \<Rightarrow> double \<Rightarrow> double" where
  "dmul fl NaN y = NaN"
| "dmul fl x NaN = NaN"
| "dmul fl PInf PInf = PInf"
| "dmul fl PInf NInf = NInf"
| "dmul fl NInf PInf = NInf"
| "dmul fl NInf NInf = PInf"
| "dmul fl PInf (Fin b) = (if b = 0 then NaN else if 0 < b then PInf else NInf)"
| "dmul fl NInf (Fin b) = (if b = 0 then NaN else if 0 < b then NInf else PInf)"
| "dmul fl (Fin a) PInf = (if a = 0 then NaN else if 0 < a then PInf else NInf)"
| "dmul fl (Fin a) NInf = (if a = 0 then NaN else if 0 < a then NInf else PInf)"
| "dmul fl (Fin a) (Fin b) = fl (a * b)"

text \<open>The conversion of a \<open>long\<close> to a double, which rounds.\<close>

definition double_of_long :: "('p, 'c, 'v, 'a) collab \<Rightarrow> int \<Rightarrow> double" where
  "double_of_long K i = double_of_real K (of_int i)"

text \<open>The macro \<open>FLOATVAL\<close>: the double of a number, converting a \<open>long\<close>.\<close>

definition FLOATVAL :: "('p, 'c, 'v, 'a) collab \<Rightarrow> SpnValue \<Rightarrow> double" where
  "FLOATVAL K f = (if isint f then double_of_long K (intvalue f) else floatvalue f)"

text \<open>
  The loop of the one- and two-argument forms: \<open>for (; i < n; i++)\<close>. The counter stays
  below a \<open>long\<close> and cannot overflow.
\<close>

function range_loop :: "int \<Rightarrow> int \<Rightarrow> SpnValue list \<Rightarrow> SpnValue list" where
  "range_loop i n rng =
     (if i < n then range_loop (i + 1) n (rng @ [SpnInt i]) else rng)"
  by pat_completeness auto
termination
  by (relation "measure (\<lambda>(i, n, rng). nat (n - i))") auto

declare range_loop.simps [simp del]

text \<open>
  The loop of the three-argument form:
  \<open>for (i = 0, x = begin; x <= end; x = begin + step * ++i)\<close>, entered with the counter \<open>i\<close>
  and the value \<open>x\<close>. The counter is a \<open>long\<close>: incrementing it at \<open>LONG_MAX\<close> is undefined,
  and then the loop has no result (\<open>None\<close>). The array is not bounded by the memory.
\<close>

function range_float_loop ::
  "('p, 'c, 'v, 'a) collab \<Rightarrow> double \<Rightarrow> double \<Rightarrow> double \<Rightarrow> int \<Rightarrow> double \<Rightarrow> SpnValue list
     \<Rightarrow> SpnValue list option" where
  "range_float_loop K begin end step i x rng =
     (if dle x end then
        (if i < LONG_MAX K then
           range_float_loop K begin end step (i + 1)
             (dadd (double_of_real K) begin
                (dmul (double_of_real K) step (double_of_long K (i + 1))))
             (rng @ [SpnFloat x])
         else None)
      else Some rng)"
  by pat_completeness auto
termination
  by (relation "measure (\<lambda>(K, begin, end, step, i, x, rng). nat (LONG_MAX K - i))") auto

declare range_float_loop.simps [simp del]

definition rtlb_range ::
  "('p, 'c, 'v, 'a) collab \<Rightarrow> SpnValue \<Rightarrow> SpnValue list \<Rightarrow> ('p, 'c, 'v) SpnContext
     \<Rightarrow> (int \<times> SpnValue \<times> ('p, 'c, 'v) SpnContext) option" where
  "rtlb_range K ret argv ctx =
     (if length argv < 1 \<or> length argv > 3 then
        Some (- 1, ret, spn_ctx_runtime_error K ctx ''expecting 1, 2 or 3 arguments'' [])
      else if \<not> list_all isnum argv then
        Some (- 2, ret, spn_ctx_runtime_error K ctx ''arguments must be numbers'' [])
      else if length argv = 1 then
        (if \<not> isint (argv ! 0) then
           Some (- 3, ret, spn_ctx_runtime_error K ctx ''argument must be an integer'' [])
         else Some (0, SpnArray (range_loop 0 (intvalue (argv ! 0)) []), ctx))
      else if length argv = 2 then
        (if \<not> isint (argv ! 0) \<or> \<not> isint (argv ! 1) then
           Some (- 3, ret, spn_ctx_runtime_error K ctx ''arguments must be integers'' [])
         else Some (0, SpnArray (range_loop (intvalue (argv ! 0)) (intvalue (argv ! 1)) []), ctx))
      else
        map_option (\<lambda>rng. (0, SpnArray rng, ctx))
          (range_float_loop K (FLOATVAL K (argv ! 0)) (FLOATVAL K (argv ! 1))
             (FLOATVAL K (argv ! 2)) 0 (FLOATVAL K (argv ! 0)) []))"

text \<open>
  The term of index \<open>i\<close> that the loop of the three-argument form tests: \<open>begin\<close> itself for
  \<open>i = 0\<close>, and \<open>begin + step * i\<close> in the arithmetic of doubles afterwards.
\<close>

definition range_term :: "('p, 'c, 'v, 'a) collab \<Rightarrow> double \<Rightarrow> double \<Rightarrow> int \<Rightarrow> double" where
  "range_term K begin step i =
     (if i = 0 then begin
      else dadd (double_of_real K) begin (dmul (double_of_real K) step (double_of_long K i)))"

text \<open>
  What the theorems on a step that is not positive use of the rounding of the
  implementation: it is monotone, it leaves a double as it is, it leaves 0 and 1 as they
  are, and a \<open>long\<close> converts to a finite double.
\<close>

definition rounding :: "('p, 'c, 'v, 'a) collab \<Rightarrow> bool" where
  "rounding K =
     ((\<forall>r s. r \<le> s \<longrightarrow> dle (double_of_real K r) (double_of_real K s))
      \<and> (\<forall>r c. double_of_real K r = Fin c \<longrightarrow> double_of_real K c = Fin c)
      \<and> double_of_real K 0 = Fin 0 \<and> double_of_real K 1 = Fin 1
      \<and> (\<forall>i. 0 \<le> i \<and> i \<le> LONG_MAX K \<longrightarrow> (\<exists>c. double_of_long K i = Fin c))
      \<and> 0 \<le> LONG_MAX K)"

text \<open>A value of the model that is a double: a finite one is left as it is by the rounding.\<close>

definition is_double :: "('p, 'c, 'v, 'a) collab \<Rightarrow> double \<Rightarrow> bool" where
  "is_double K d = (case d of Fin r \<Rightarrow> double_of_real K r = Fin r | _ \<Rightarrow> True)"

subsection \<open>compile and exprtofn\<close>

text \<open>
  Modelled from the spec: \<open>spn_ctx_clearerror\<close>, which rtlb.c calls and ctx.c does not
  define. The spec: "Calling \<open>clearerror\<close> resets the category to \<open>Ok\<close> but does not free
  previously returned values."
\<close>

definition spn_ctx_clearerror :: "('p, 'c, 'v) SpnContext \<Rightarrow> ('p, 'c, 'v) SpnContext" where
  "spn_ctx_clearerror ctx = ctx\<lparr>errtype := SPN_ERROR_OK\<rparr>"

text \<open>
  The source text is passed as the C string of the argument. \<open>makestring\<close> of a \<open>NULL\<close>
  message has no defined result (\<open>None\<close>). rtlb.c receives the loaded program as a function
  object; ctx.c returns its bytecode, which is wrapped here.
\<close>

definition rtlb_compile ::
  "('p, 'c, 'v, 'a) collab \<Rightarrow> SpnValue \<Rightarrow> SpnValue list \<Rightarrow> ('p, 'c, 'v) SpnContext
     \<Rightarrow> (int \<times> SpnValue \<times> ('p, 'c, 'v) SpnContext) option" where
  "rtlb_compile K ret argv ctx =
     (if length argv \<noteq> 1 then
        Some (- 1, ret, spn_ctx_runtime_error K ctx ''exactly one argument is required'' [])
      else if \<not> isstring (argv ! 0) then
        Some (- 2, ret, spn_ctx_runtime_error K ctx ''argument must be a string'' [])
      else (case spn_ctx_loadstring K ctx (cstr (stringvalue (argv ! 0))) of
              (None, ctx1) \<Rightarrow>
                (case spn_ctx_geterrmsg K ctx1 of
                   None \<Rightarrow> None
                 | Some emsg \<Rightarrow> Some (0, SpnString emsg, spn_ctx_clearerror ctx1))
            | (Some fn, ctx1) \<Rightarrow> Some (0, SpnFunc (Script fn), ctx1)))"

definition rtlb_exprtofn ::
  "('p, 'c, 'v, 'a) collab \<Rightarrow> SpnValue \<Rightarrow> SpnValue list \<Rightarrow> ('p, 'c, 'v) SpnContext
     \<Rightarrow> (int \<times> SpnValue \<times> ('p, 'c, 'v) SpnContext) option" where
  "rtlb_exprtofn K ret argv ctx =
     (if length argv \<noteq> 1 then
        Some (- 1, ret, spn_ctx_runtime_error K ctx ''requiring exactly one argument'' [])
      else if \<not> isstring (argv ! 0) then
        Some (- 2, ret, spn_ctx_runtime_error K ctx ''argument must be a string'' [])
      else (case spn_ctx_compile_expr K ctx (cstr (stringvalue (argv ! 0))) of
              (None, ctx1) \<Rightarrow>
                (case spn_ctx_geterrmsg K ctx1 of
                   None \<Rightarrow> None
                 | Some emsg \<Rightarrow> Some (0, SpnString emsg, spn_ctx_clearerror ctx1))
            | (Some fn, ctx1) \<Rightarrow> Some (0, SpnFunc (Script fn), ctx1)))"

subsection \<open>sort\<close>

text \<open>
  Modelled from the spec: \<open>spn_values_comparable\<close> and \<open>spn_value_compare\<close>, which are
  not in these sources. The spec: "\<open>Int\<close> and \<open>Float\<close> are mutually comparable; strings
  compare lexicographically; other combinations are uncomparable". The result of the
  comparison is negative, zero or positive; numbers are compared by the values they
  denote (\<open>number_of\<close>).
\<close>

definition number_of :: "SpnValue \<Rightarrow> double" where
  "number_of v = (if isint v then Fin (of_int (intvalue v)) else floatvalue v)"

definition spn_values_comparable :: "SpnValue \<Rightarrow> SpnValue \<Rightarrow> bool" where
  "spn_values_comparable a b = ((isnum a \<and> isnum b) \<or> (isstring a \<and> isstring b))"

fun str_compare :: "string \<Rightarrow> string \<Rightarrow> int" where
  "str_compare [] [] = 0"
| "str_compare [] (y # ys) = - 1"
| "str_compare (x # xs) [] = 1"
| "str_compare (x # xs) (y # ys) =
     (if (of_char x :: nat) < of_char y then - 1
      else if (of_char y :: nat) < of_char x then 1
      else str_compare xs ys)"

definition spn_value_compare :: "SpnValue \<Rightarrow> SpnValue \<Rightarrow> int" where
  "spn_value_compare a b =
     (if isstring a then str_compare (stringvalue a) (stringvalue b)
      else if dle (number_of a) (number_of b) \<and> \<not> dle (number_of b) (number_of a) then - 1
      else if dle (number_of b) (number_of a) \<and> \<not> dle (number_of a) (number_of b) then 1
      else 0)"

text \<open>
  The array is the list of its elements and the functions return the array they leave.
  Indices are C \<open>int\<close>s; every index used below lies in the array when \<open>rtlb_sort\<close> makes
  the call. The comparator runs in the virtual machine and is taken not to change the
  array that is being sorted.
\<close>

definition rtlb_aux_swap :: "SpnValue list \<Rightarrow> int \<Rightarrow> int \<Rightarrow> SpnValue list" where
  "rtlb_aux_swap a i j = (a[nat i := a ! nat j])[nat j := a ! nat i]"

text \<open>
  The loop of \<open>rtlb_aux_partition\<close>; the result is the error flag, the store index, the
  array and the context. The slot of the comparator call is a local variable of the
  source that the call fills; it is passed as \<open>SpnNil\<close>.
\<close>

function partition_loop ::
  "('p, 'c, 'v, 'a) collab \<Rightarrow> SpnValue option \<Rightarrow> SpnValue \<Rightarrow> int \<Rightarrow> int \<Rightarrow> int
     \<Rightarrow> SpnValue list \<Rightarrow> ('p, 'c, 'v) SpnContext
     \<Rightarrow> bool \<times> int \<times> SpnValue list \<times> ('p, 'c, 'v) SpnContext" where
  "partition_loop K compf pivot right i store_idx a ctx =
     (if i < right then
        (let ith_elem = a ! nat i in
         case compf of
           Some f \<Rightarrow>
             (case spn_ctx_callfunc K ctx f SpnNil [ith_elem, pivot] of
                (status, r, ctx1) \<Rightarrow>
                  if status \<noteq> 0 then (True, 0, a, ctx1)
                  else if \<not> isbool r then
                    (True, 0, a,
                     spn_ctx_runtime_error K ctx1 ''comparator function must return a Boolean'' [])
                  else if boolvalue r then
                    partition_loop K compf pivot right (i + 1) (store_idx + 1)
                      (rtlb_aux_swap a i store_idx) ctx1
                  else partition_loop K compf pivot right (i + 1) store_idx a ctx1)
         | None \<Rightarrow>
             if \<not> spn_values_comparable ith_elem pivot then
               (True, 0, a,
                spn_ctx_runtime_error K ctx
                  ''attempt to sort uncomparable values of type %s and %s''
                  [CStr (spn_type_name K ith_elem), CStr (spn_type_name K pivot)])
             else if spn_value_compare ith_elem pivot < 0 then
               partition_loop K compf pivot right (i + 1) (store_idx + 1)
                 (rtlb_aux_swap a i store_idx) ctx
             else partition_loop K compf pivot right (i + 1) store_idx a ctx)
      else (False, store_idx, a, ctx))"
  by pat_completeness auto
termination
  by (relation "measure (\<lambda>(K, compf, pivot, right, i, store_idx, a, ctx). nat (right - i))") auto

declare partition_loop.simps [simp del]

definition rtlb_aux_partition ::
  "('p, 'c, 'v, 'a) collab \<Rightarrow> SpnValue option \<Rightarrow> int \<Rightarrow> int \<Rightarrow> SpnValue list
     \<Rightarrow> ('p, 'c, 'v) SpnContext \<Rightarrow> bool \<times> int \<times> SpnValue list \<times> ('p, 'c, 'v) SpnContext" where
  "rtlb_aux_partition K compf left right a ctx =
     (let pivot_idx = left + (right - left) div 2;
          pivot = a ! nat pivot_idx
      in case partition_loop K compf pivot right left left (rtlb_aux_swap a pivot_idx right) ctx of
           (error, store_idx, a1, ctx1) \<Rightarrow>
             if error then (True, 0, a1, ctx1)
             else (False, store_idx, rtlb_aux_swap a1 store_idx right, ctx1))"

lemma partition_loop_bounds:
  "partition_loop K compf pivot right i store_idx a ctx = (False, p, a1, ctx1)
     \<Longrightarrow> store_idx \<le> i \<Longrightarrow> i \<le> right \<Longrightarrow> store_idx \<le> p \<and> p \<le> right"
proof (induction K compf pivot right i store_idx a ctx rule: partition_loop.induct)
  case (1 K compf pivot right i store_idx a ctx)
  note run = "1.prems"(1)
  show ?case
  proof (cases "i < right")
    case False
    with "1.prems" show ?thesis by (simp add: partition_loop.simps [of K compf pivot right i])
  next
    case True
    show ?thesis
    proof (cases compf)
      case None
      show ?thesis
      proof (cases "spn_values_comparable (a ! nat i) pivot")
        case False
        with run True None show ?thesis
          by (simp add: partition_loop.simps [of K None pivot right i] Let_def)
      next
        case cmp: True
        show ?thesis
        proof (cases "spn_value_compare (a ! nat i) pivot < 0")
          case lt: True
          from run True None cmp lt
          have "partition_loop K None pivot right (i + 1) (store_idx + 1)
                  (rtlb_aux_swap a i store_idx) ctx = (False, p, a1, ctx1)"
            by (simp add: partition_loop.simps [of K None pivot right i] Let_def)
          with "1.IH"(1) [OF True refl None] cmp lt "1.prems"(2) True None
          show ?thesis by simp
        next
          case ge: False
          from run True None cmp ge
          have "partition_loop K None pivot right (i + 1) store_idx a ctx = (False, p, a1, ctx1)"
            by (simp add: partition_loop.simps [of K None pivot right i] Let_def)
          with "1.IH"(2) [OF True refl None] cmp ge "1.prems"(2) True None
          show ?thesis by simp
        qed
      qed
    next
      case (Some f)
      obtain status r c1 where call:
        "spn_ctx_callfunc K ctx f SpnNil [a ! nat i, pivot] = (status, r, c1)"
        by (cases "spn_ctx_callfunc K ctx f SpnNil [a ! nat i, pivot]") auto
      show ?thesis
      proof (cases "status \<noteq> 0 \<or> \<not> isbool r")
        case True
        with run \<open>i < right\<close> Some call show ?thesis
          by (auto simp: partition_loop.simps [of K "Some f" pivot right i] Let_def split: if_splits)
      next
        case ok: False
        show ?thesis
        proof (cases "boolvalue r")
          case lt: True
          from run \<open>i < right\<close> Some call ok lt
          have "partition_loop K (Some f) pivot right (i + 1) (store_idx + 1)
                  (rtlb_aux_swap a i store_idx) c1 = (False, p, a1, ctx1)"
            by (simp add: partition_loop.simps [of K "Some f" pivot right i] Let_def)
          with "1.IH"(3) [OF \<open>i < right\<close> refl Some call [symmetric] refl] ok lt
            "1.prems"(2) \<open>i < right\<close> Some
          show ?thesis by simp
        next
          case ge: False
          from run \<open>i < right\<close> Some call ok ge
          have "partition_loop K (Some f) pivot right (i + 1) store_idx a c1 = (False, p, a1, ctx1)"
            by (simp add: partition_loop.simps [of K "Some f" pivot right i] Let_def)
          with "1.IH"(4) [OF \<open>i < right\<close> refl Some call [symmetric] refl] ok ge
            "1.prems"(2) \<open>i < right\<close> Some
          show ?thesis by simp
        qed
      qed
    qed
  qed
qed

lemma rtlb_aux_partition_bounds:
  "rtlb_aux_partition K compf left right a ctx = (False, p, a1, ctx1) \<Longrightarrow> left \<le> right
     \<Longrightarrow> left \<le> p \<and> p \<le> right"
  unfolding rtlb_aux_partition_def
  by (auto simp: Let_def split: prod.splits if_splits dest: partition_loop_bounds)

function rtlb_aux_qsort ::
  "('p, 'c, 'v, 'a) collab \<Rightarrow> SpnValue option \<Rightarrow> int \<Rightarrow> int \<Rightarrow> SpnValue list
     \<Rightarrow> ('p, 'c, 'v) SpnContext \<Rightarrow> int \<times> SpnValue list \<times> ('p, 'c, 'v) SpnContext" where
  "rtlb_aux_qsort K compf left right a ctx =
     (if left \<ge> right then (0, a, ctx)
      else
        (case rtlb_aux_partition K compf left right a ctx of
           (error, pivot_index, a1, ctx1) \<Rightarrow>
             if error then (- 1, a1, ctx1)
             else
               (case rtlb_aux_qsort K compf left (pivot_index - 1) a1 ctx1 of
                  (st1, a2, ctx2) \<Rightarrow>
                    if st1 \<noteq> 0 then (- 1, a2, ctx2)
                    else
                      (case rtlb_aux_qsort K compf (pivot_index + 1) right a2 ctx2 of
                         (st2, a3, ctx3) \<Rightarrow>
                           if st2 \<noteq> 0 then (- 1, a3, ctx3) else (0, a3, ctx3)))))"
  by pat_completeness auto
termination
  apply (relation "measure (\<lambda>(K, compf, left, right, a, ctx). nat (right - left + 1))")
  apply simp
  subgoal for K compf left right a ctx x y xa ya xb yb
    using rtlb_aux_partition_bounds [of K compf left right a ctx xa xb yb] by auto
  subgoal for K compf left right a ctx x y xa ya xb yb xc yc xd yd
    using rtlb_aux_partition_bounds [of K compf left right a ctx xa xb yb] by auto
  done

declare rtlb_aux_qsort.simps [simp del]

definition rtlb_sort ::
  "('p, 'c, 'v, 'a) collab \<Rightarrow> SpnValue \<Rightarrow> SpnValue list \<Rightarrow> ('p, 'c, 'v) SpnContext
     \<Rightarrow> int \<times> SpnValue \<times> SpnValue list \<times> ('p, 'c, 'v) SpnContext" where
  "rtlb_sort K ret argv ctx =
     (if length argv < 1 \<or> length argv > 2 then
        (- 1, ret, argv, spn_ctx_runtime_error K ctx ''one or two arguments are required'' [])
      else if \<not> isarray (argv ! 0) then
        (- 2, ret, argv, spn_ctx_runtime_error K ctx ''first argument must be an array'' [])
      else if length argv = 2 \<and> \<not> isfunc (argv ! 1) then
        (- 3, ret, argv,
         spn_ctx_runtime_error K ctx ''second argument must be a comparator function'' [])
      else
        (let array = arrayvalue (argv ! 0);
             comparator = (if length argv = 2 then Some (argv ! 1) else None)
         in case rtlb_aux_qsort K comparator 0 (int (length array) - 1) array ctx of
              (status, a1, ctx1) \<Rightarrow> (status, ret, argv[0 := SpnArray a1], ctx1)))"

text \<open>One comparison of the partition loop: the context after a failure, or the answer.\<close>

definition cmp_step ::
  "('p, 'c, 'v, 'a) collab \<Rightarrow> SpnValue option \<Rightarrow> SpnValue \<Rightarrow> SpnValue \<Rightarrow> ('p, 'c, 'v) SpnContext
     \<Rightarrow> ('p, 'c, 'v) SpnContext + bool \<times> ('p, 'c, 'v) SpnContext" where
  "cmp_step K compf x pivot ctx =
     (case compf of
        Some f \<Rightarrow>
          (case spn_ctx_callfunc K ctx f SpnNil [x, pivot] of
             (status, r, ctx1) \<Rightarrow>
               if status \<noteq> 0 then Inl ctx1
               else if \<not> isbool r then
                 Inl (spn_ctx_runtime_error K ctx1 ''comparator function must return a Boolean'' [])
               else Inr (boolvalue r, ctx1))
      | None \<Rightarrow>
          if \<not> spn_values_comparable x pivot then
            Inl (spn_ctx_runtime_error K ctx
                   ''attempt to sort uncomparable values of type %s and %s''
                   [CStr (spn_type_name K x), CStr (spn_type_name K pivot)])
          else Inr (spn_value_compare x pivot < 0, ctx))"

text \<open>
  A record of the calls the virtual machine is asked to make: the arguments, the status
  and the value left in the result slot. \<open>logged K\<close> is \<open>K\<close> with a virtual machine that
  keeps such a record beside its state and is otherwise the machine of \<open>K\<close>.
\<close>

type_synonym call_log = "(SpnValue list \<times> int \<times> SpnValue) list"

definition with_log ::
  "('p, 'c, 'v) SpnContext \<Rightarrow> call_log \<Rightarrow> ('p, 'c, 'v \<times> call_log) SpnContext" where
  "with_log ctx l =
     \<lparr>parser = parser ctx, cmp = cmp ctx, vm = (vm ctx, l), bclist = bclist ctx,
      errtype = errtype ctx, errmsg = errmsg ctx, info = info ctx\<rparr>"

definition unlog :: "('p, 'c, 'v \<times> call_log) SpnContext \<Rightarrow> ('p, 'c, 'v) SpnContext" where
  "unlog ctx =
     \<lparr>parser = parser ctx, cmp = cmp ctx, vm = fst (vm ctx), bclist = bclist ctx,
      errtype = errtype ctx, errmsg = errmsg ctx, info = info ctx\<rparr>"

definition calls :: "('p, 'c, 'v \<times> call_log) SpnContext \<Rightarrow> call_log" where
  "calls ctx = snd (vm ctx)"

definition logged :: "('p, 'c, 'v, 'a) collab \<Rightarrow> ('p, 'c, 'v \<times> call_log, 'a) collab" where
  "logged K =
     \<lparr>spn_parser_parse = spn_parser_parse K,
      parser_errmsg = parser_errmsg K,
      spn_compiler_compile = spn_compiler_compile K,
      spn_compiler_errmsg = spn_compiler_errmsg K,
      spn_vm_exec =
        (\<lambda>v bc ret. case spn_vm_exec K (fst v) bc ret of (st, r, v') \<Rightarrow> (st, r, (v', snd v))),
      spn_vm_callfunc =
        (\<lambda>v f ret args.
           case spn_vm_callfunc K (fst v) f ret args of
             (st, r, v') \<Rightarrow> (st, r, (v', snd v @ [(args, st, r)]))),
      spn_vm_geterrmsg = (\<lambda>v. spn_vm_geterrmsg K (fst v)),
      spn_vm_seterrmsg = (\<lambda>v fmt args. (spn_vm_seterrmsg K (fst v) fmt args, snd v)),
      spn_read_text_file = spn_read_text_file K,
      spn_read_binary_file = spn_read_binary_file K,
      sizeof_uword = sizeof_uword K,
      spn_string_format_obj = spn_string_format_obj K,
      spn_type_name = spn_type_name K,
      fopen_rb = fopen_rb K,
      fread_fails = fread_fails K,
      strerror_errno = strerror_errno K,
      spn_ctx_compile_expr =
        (\<lambda>ctx s. case spn_ctx_compile_expr K (unlog ctx) s of
                    (r, ctx') \<Rightarrow> (r, with_log ctx' (calls ctx))),
      double_of_real = double_of_real K,
      LONG_MAX = LONG_MAX K\<rparr>"

definition good_call :: "SpnValue list \<times> int \<times> SpnValue \<Rightarrow> bool" where
  "good_call e = (fst (snd e) = 0 \<and> isbool (snd (snd e)))"

text \<open>
  What a run with the comparator \<open>f\<close> leaves when it stops early. \<open>aborted K f new c1\<close>:
  the last of the new calls failed or did not return a Boolean and every call before it
  returned one; the last entry is the outcome of a call of \<open>f\<close> by the virtual machine
  that left the state \<open>v\<close>; if that call failed the category of the context is \<open>Runtime\<close>
  and the state of the machine is \<open>v\<close>; if it returned normally the category is \<open>Ok\<close> and
  the state of the machine is \<open>v\<close> with the error message about the comparator set.
\<close>

definition aborted ::
  "('p, 'c, 'v, 'a) collab \<Rightarrow> SpnValue \<Rightarrow> call_log \<Rightarrow> ('p, 'c, 'v \<times> call_log) SpnContext
     \<Rightarrow> bool" where
  "aborted K f new c1 =
     (new \<noteq> [] \<and> \<not> good_call (last new) \<and> list_all good_call (butlast new)
      \<and> (\<exists>v0 v. spn_vm_callfunc K v0 f SpnNil (fst (last new))
                    = (fst (snd (last new)), snd (snd (last new)), v)
             \<and> (if fst (snd (last new)) \<noteq> 0
                 then errtype c1 = SPN_ERROR_RUNTIME \<and> fst (vm c1) = v
                 else errtype c1 = SPN_ERROR_OK
                      \<and> fst (vm c1) =
                          spn_vm_seterrmsg K v ''comparator function must return a Boolean'' [])))"

text \<open>
  \<open>answers K f lt A\<close>: on arguments from \<open>A\<close> the function \<open>f\<close> returns normally, in every
  state of the virtual machine, with the Boolean \<open>lt x y\<close>.
\<close>

definition answers ::
  "('p, 'c, 'v, 'a) collab \<Rightarrow> SpnValue \<Rightarrow> (SpnValue \<Rightarrow> SpnValue \<Rightarrow> bool) \<Rightarrow> SpnValue set \<Rightarrow> bool"
  where
  "answers K f lt A =
     (\<forall>x\<in>A. \<forall>y\<in>A. \<forall>v. \<exists>v'. spn_vm_callfunc K v f SpnNil [x, y] = (0, SpnBool (lt x y), v'))"

section \<open>Concrete collaborators\<close>

text \<open>
  Modelled from the spec: a fragment of the format engine \<open>spn_string_format_obj\<close>, which
  is not in these sources. The spec: "\<open>%s\<close> (string), \<open>%i\<close>/\<open>%d\<close> (integer), \<open>%c\<close>
  (character from integer), \<open>%B\<close> (boolean), \<open>%%\<close> (literal)"; "Unknown specifiers or type
  mismatches produce an error string". Only these directives, without flags, width or
  precision, belong to the fragment; the answer to any other directive says nothing about
  the engine.
\<close>

function show_nat :: "nat \<Rightarrow> string" where
  "show_nat n =
     (if n < 10 then [char_of (48 + n)] else show_nat (n div 10) @ [char_of (48 + n mod 10)])"
  by pat_completeness auto
termination
  by (relation "measure id") auto

declare show_nat.simps [simp del]

definition show_int :: "int \<Rightarrow> string" where
  "show_int i = (if i < 0 then CHR ''-'' # show_nat (nat (- i)) else show_nat (nat i))"

definition expanded :: "string \<Rightarrow> string + string \<Rightarrow> string + string" where
  "expanded s r = (case r of Inl e \<Rightarrow> Inl e | Inr t \<Rightarrow> Inr (s @ t))"

fun format_fragment :: "string \<Rightarrow> SpnValue list \<Rightarrow> string + string" where
  "format_fragment [] args = Inr []"
| "format_fragment [c] args =
     (if c = CHR ''%'' then Inl ''incomplete format specifier'' else Inr [c])"
| "format_fragment (c # d # fmt) args =
     (if c \<noteq> CHR ''%'' then expanded [c] (format_fragment (d # fmt) args)
      else if d = CHR ''%'' then expanded ''%'' (format_fragment fmt args)
      else if d = CHR ''s'' then
        (case args of
           SpnString s # rest \<Rightarrow> expanded s (format_fragment fmt rest)
         | _ \<Rightarrow> Inl ''format specifier %s expects a string'')
      else if d = CHR ''d'' \<or> d = CHR ''i'' then
        (case args of
           SpnInt i # rest \<Rightarrow> expanded (show_int i) (format_fragment fmt rest)
         | _ \<Rightarrow> Inl ''format specifier expects an integer'')
      else if d = CHR ''c'' then
        (case args of
           SpnInt i # rest \<Rightarrow> expanded [char_of (nat (i mod 256))] (format_fragment fmt rest)
         | _ \<Rightarrow> Inl ''format specifier %c expects an integer'')
      else if d = CHR ''B'' then
        (case args of
           SpnBool b # rest \<Rightarrow>
             expanded (if b then ''true'' else ''false'') (format_fragment fmt rest)
         | _ \<Rightarrow> Inl ''format specifier %B expects a Boolean'')
      else Inl ''unrecognized conversion specifier'')"

text \<open>
  One choice of collaborators, on which the model runs. The parser rejects a text that
  contains \<open>@\<close>, the compiler rejects the empty program, the virtual machine fails on the
  empty bytecode and knows the native comparators \<open>less\<close>, \<open>greater\<close> and \<open>one\<close> (which
  answers with an integer); the state of each of them is its last error message.
\<close>

fun type_name0 :: "SpnValue \<Rightarrow> string" where
  "type_name0 SpnNil = ''nil''"
| "type_name0 (SpnBool b) = ''bool''"
| "type_name0 (SpnInt i) = ''int''"
| "type_name0 (SpnFloat d) = ''float''"
| "type_name0 (SpnString s) = ''string''"
| "type_name0 (SpnArray a) = ''array''"
| "type_name0 (SpnHashMap m) = ''hashmap''"
| "type_name0 (SpnFunc f) = ''function''"
| "type_name0 (SpnUserInfo u) = ''userinfo''"
| "type_name0 (SpnWeakUserInfo u) = ''userinfo''"

fun callfunc0 ::
  "(string \<times> carg list) option \<Rightarrow> SpnValue \<Rightarrow> SpnValue \<Rightarrow> SpnValue list
     \<Rightarrow> int \<times> SpnValue \<times> (string \<times> carg list) option" where
  "callfunc0 v (SpnFunc (Native n)) ret [SpnInt x, SpnInt y] =
     (if n = ''less'' then (0, SpnBool (x < y), v)
      else if n = ''greater'' then (0, SpnBool (y < x), v)
      else if n = ''one'' then (0, SpnInt 1, v)
      else (- 1, ret, Some (''no such function'', [])))"
| "callfunc0 v f ret args = (- 1, ret, Some (''cannot call'', []))"

definition K0 ::
  "(string option, string option, (string \<times> carg list) option, string) collab" where
  "K0 = \<lparr>
     spn_parser_parse = (\<lambda>p s. if CHR ''@'' \<in> set s then (None, Some ''syntax error'') else (Some s, p)),
     parser_errmsg = (\<lambda>p. p),
     spn_compiler_compile =
       (\<lambda>c t. if t = [] then (None, Some ''empty program'') else (Some ([length t], 1), c)),
     spn_compiler_errmsg = (\<lambda>c. c),
     spn_vm_exec =
       (\<lambda>v bc ret. if bc = [] then (- 1, ret, Some (''empty bytecode'', []))
                    else (0, SpnInt (int (length bc)), v)),
     spn_vm_callfunc = callfunc0,
     spn_vm_geterrmsg = map_option fst,
     spn_vm_seterrmsg = (\<lambda>v fmt args. Some (fmt, args)),
     spn_read_text_file = (\<lambda>fname. if fname = ''main.spn'' then Some ''return'' else None),
     spn_read_binary_file = (\<lambda>fname. if fname = ''main.spo'' then Some ([1, 2, 3], 12) else None),
     sizeof_uword = 4,
     spn_string_format_obj = format_fragment,
     spn_type_name = type_name0,
     fopen_rb = (\<lambda>fname. if fname = ''data'' then Some ''abc'' else if fname = ''empty'' then Some [] else None),
     fread_fails = (\<lambda>fname. False),
     strerror_errno = (\<lambda>fname. ''No such file or directory''),
     spn_ctx_compile_expr =
       (\<lambda>ctx s. if s = [] then (None, ctx\<lparr>parser := Some ''expected expression'', errtype := SPN_ERROR_SYNTAX\<rparr>)
                 else (Some [length s], ctx\<lparr>errtype := SPN_ERROR_OK\<rparr>)),
     double_of_real = Fin,
     LONG_MAX = 9223372036854775807
   \<rparr>"

definition ctx0 ::
  "(string option, string option, (string \<times> carg list) option) SpnContext" where
  "ctx0 = \<lparr>parser = None, cmp = None, vm = None, bclist = [], errtype = SPN_ERROR_OK,
           errmsg = None, info = None\<rparr>"

lemma K0_sel [simp]:
  "spn_parser_parse K0 p s = (if CHR ''@'' \<in> set s then (None, Some ''syntax error'') else (Some s, p))"
  "parser_errmsg K0 p = p"
  "spn_compiler_compile K0 c t = (if t = [] then (None, Some ''empty program'') else (Some ([length t], 1), c))"
  "spn_compiler_errmsg K0 c = c"
  "spn_vm_exec K0 v bc ret = (if bc = [] then (- 1, ret, Some (''empty bytecode'', []))
                    else (0, SpnInt (int (length bc)), v))"
  "spn_vm_callfunc K0 = callfunc0"
  "spn_vm_geterrmsg K0 v = map_option fst v"
  "spn_vm_seterrmsg K0 v fmt args = Some (fmt, args)"
  "spn_read_text_file K0 fname = (if fname = ''main.spn'' then Some ''return'' else None)"
  "spn_read_binary_file K0 fname = (if fname = ''main.spo'' then Some ([1, 2, 3], 12) else None)"
  "sizeof_uword K0 = 4"
  "spn_string_format_obj K0 = format_fragment"
  "spn_type_name K0 = type_name0"
  "fopen_rb K0 fname = (if fname = ''data'' then Some ''abc'' else if fname = ''empty'' then Some [] else None)"
  "fread_fails K0 fname = False"
  "strerror_errno K0 fname = ''No such file or directory''"
  "spn_ctx_compile_expr K0 ctx s =
     (if s = [] then (None, ctx\<lparr>parser := Some ''expected expression'', errtype := SPN_ERROR_SYNTAX\<rparr>)
      else (Some [length s], ctx\<lparr>errtype := SPN_ERROR_OK\<rparr>))"
  "double_of_real K0 = Fin"
  "LONG_MAX K0 = 9223372036854775807"
  by (simp_all add: K0_def)

section \<open>The context: loading and error categories\<close>

lemma loadstring_cases:
  "spn_ctx_loadstring K ctx str =
     (case spn_parser_parse K (parser ctx) str of
        (None, p) \<Rightarrow> (None, ctx\<lparr>parser := p, errtype := SPN_ERROR_SYNTAX\<rparr>)
      | (Some t, p) \<Rightarrow>
          (case spn_compiler_compile K (cmp ctx) t of
             (None, c) \<Rightarrow> (None, ctx\<lparr>parser := p, cmp := c, errtype := SPN_ERROR_SEMANTIC\<rparr>)
           | (Some (bc, n), c) \<Rightarrow>
               (Some bc, ctx\<lparr>parser := p, cmp := c, bclist := (bc, n) # bclist ctx,
                               errtype := SPN_ERROR_OK\<rparr>)))"
  by (simp add: spn_ctx_loadstring_def prepend_bytecode_list_def Let_def
           split: prod.splits option.splits)

lemma loadstring_vm: "vm (snd (spn_ctx_loadstring K ctx str)) = vm ctx"
  by (simp add: loadstring_cases split: prod.splits option.splits)

text \<open>
  C1 (amended): \<open>spn_ctx_loadstring\<close> of ctx.c takes the context and the source text only
  and returns one value, a pointer \<open>r\<close> to bytecode: it has no status and no result
  parameter. For every context and every source text, \<open>r\<close> is not \<open>NULL\<close> exactly when the
  parser and the compiler both succeed; it then points to the bytecode the compiler
  produced, the error category is \<open>Ok\<close> and the program is prepended to the chain. When
  the parser or the compiler fails \<open>r\<close> is \<open>NULL\<close>, the category is \<open>Syntax\<close> or \<open>Semantic\<close>,
  the message is the failing component's and the chain is unchanged.
\<close>

theorem loadstring_outcome:
  assumes "spn_ctx_loadstring K ctx str = (r, ctx')"
      and "spn_parser_parse K (parser ctx) str = (ast, p)"
  shows "(case ast of
            None \<Rightarrow> r = None \<and> spn_ctx_geterrtype ctx' = SPN_ERROR_SYNTAX
                     \<and> spn_ctx_geterrmsg K ctx' = parser_errmsg K p
                     \<and> bclist ctx' = bclist ctx
          | Some t \<Rightarrow>
              (case spn_compiler_compile K (cmp ctx) t of
                 (None, c) \<Rightarrow> r = None \<and> spn_ctx_geterrtype ctx' = SPN_ERROR_SEMANTIC
                               \<and> spn_ctx_geterrmsg K ctx' = spn_compiler_errmsg K c
                               \<and> bclist ctx' = bclist ctx
               | (Some (bc, n), c) \<Rightarrow> r = Some bc \<and> spn_ctx_geterrtype ctx' = SPN_ERROR_OK
                               \<and> spn_ctx_geterrmsg K ctx' = None
                               \<and> bclist ctx' = (bc, n) # bclist ctx))"
  using assms
  by (auto simp: loadstring_cases spn_ctx_geterrtype_def spn_ctx_geterrmsg_def
           split: prod.splits option.splits)

theorem loadstring_outcome_witness:
  "spn_ctx_loadstring K0 ctx0 ''return'' = (Some [6], ctx0\<lparr>bclist := [([6], 1)]\<rparr>)
   \<and> spn_ctx_geterrtype (ctx0\<lparr>bclist := [([6], 1)]\<rparr>) = SPN_ERROR_OK
   \<and> fst (spn_ctx_loadstring K0 ctx0 ''@@@'') = None
   \<and> spn_ctx_geterrtype (snd (spn_ctx_loadstring K0 ctx0 ''@@@'')) = SPN_ERROR_SYNTAX
   \<and> spn_ctx_geterrmsg K0 (snd (spn_ctx_loadstring K0 ctx0 ''@@@'')) = Some ''syntax error''"
  using loadstring_outcome [of K0 ctx0 "''return''" "Some [6]" "ctx0\<lparr>bclist := [([6], 1)]\<rparr>"
          "Some ''return''" None]
        loadstring_outcome [of K0 ctx0 "''@@@''" "fst (spn_ctx_loadstring K0 ctx0 ''@@@'')"
          "snd (spn_ctx_loadstring K0 ctx0 ''@@@'')" None "Some ''syntax error''"]
  by (simp add: loadstring_cases K0_def ctx0_def spn_ctx_geterrtype_def)

text \<open>
  The claim as stated fails. The value that \<open>spn_ctx_loadstring\<close> returns is not zero
  (not \<open>NULL\<close>) on a text that loads, and zero (\<open>NULL\<close>) on a text that the parser rejects:
  it is not a status that is zero on success and nonzero on failure; and what it delivers
  on success is the bytecode, as its return value, not a function value in a result slot.
\<close>

theorem loadstring_counterexample:
  "fst (spn_ctx_loadstring K0 ctx0 ''return'') = Some [6]
   \<and> fst (spn_ctx_loadstring K0 ctx0 ''return'') \<noteq> None
   \<and> fst (spn_ctx_loadstring K0 ctx0 ''@@@'') = None"
  by (simp add: loadstring_cases)

text \<open>
  C2: every load and exec entry point of the context first resets the error category, so
  its outcome does not depend on the category it finds; on failure the category is that of
  the failing component: \<open>Syntax\<close> when the parser rejects the text, \<open>Semantic\<close> when the
  compiler rejects the tree, \<open>Generic\<close> when the source or object file cannot be read,
  \<open>Runtime\<close> when the virtual machine returns nonzero from an execution or a call, and
  \<open>Ok\<close> otherwise. \<open>spn_ctx_geterrmsg\<close> is \<open>NULL\<close> for \<open>Ok\<close> and otherwise the message of
  the component that owns the category.
\<close>

theorem error_category:
  "spn_ctx_loadstring K (ctx\<lparr>errtype := e\<rparr>) str = spn_ctx_loadstring K ctx str
   \<and> spn_ctx_loadsrcfile K (ctx\<lparr>errtype := e\<rparr>) fname = spn_ctx_loadsrcfile K ctx fname
   \<and> spn_ctx_loadobjfile K (ctx\<lparr>errtype := e\<rparr>) fname = spn_ctx_loadobjfile K ctx fname
   \<and> spn_ctx_execbytecode K (ctx\<lparr>errtype := e\<rparr>) bc ret = spn_ctx_execbytecode K ctx bc ret
   \<and> spn_ctx_callfunc K (ctx\<lparr>errtype := e\<rparr>) func ret argv = spn_ctx_callfunc K ctx func ret argv
   \<and> spn_ctx_execstring K (ctx\<lparr>errtype := e\<rparr>) str ret = spn_ctx_execstring K ctx str ret
   \<and> spn_ctx_execsrcfile K (ctx\<lparr>errtype := e\<rparr>) fname ret = spn_ctx_execsrcfile K ctx fname ret
   \<and> spn_ctx_execobjfile K (ctx\<lparr>errtype := e\<rparr>) fname ret = spn_ctx_execobjfile K ctx fname ret
   \<and> spn_ctx_geterrtype (snd (spn_ctx_loadstring K ctx str)) =
         (case fst (spn_parser_parse K (parser ctx) str) of
            None \<Rightarrow> SPN_ERROR_SYNTAX
          | Some t \<Rightarrow>
              (case fst (spn_compiler_compile K (cmp ctx) t) of
                 None \<Rightarrow> SPN_ERROR_SEMANTIC
               | Some b \<Rightarrow> SPN_ERROR_OK))
   \<and> spn_ctx_geterrtype (snd (spn_ctx_loadsrcfile K ctx fname)) =
         (case spn_read_text_file K fname of
            None \<Rightarrow> SPN_ERROR_GENERIC
          | Some src \<Rightarrow> spn_ctx_geterrtype (snd (spn_ctx_loadstring K ctx src)))
   \<and> spn_ctx_geterrtype (snd (spn_ctx_loadobjfile K ctx fname)) =
         (case spn_read_binary_file K fname of
            None \<Rightarrow> SPN_ERROR_GENERIC
          | Some b \<Rightarrow> SPN_ERROR_OK)
   \<and> fst (spn_ctx_execbytecode K ctx bc ret) = fst (spn_vm_exec K (vm ctx) bc ret)
   \<and> spn_ctx_geterrtype (snd (snd (spn_ctx_execbytecode K ctx bc ret))) =
         (if fst (spn_vm_exec K (vm ctx) bc ret) \<noteq> 0 then SPN_ERROR_RUNTIME else SPN_ERROR_OK)
   \<and> fst (spn_ctx_callfunc K ctx func ret argv) = fst (spn_vm_callfunc K (vm ctx) func ret argv)
   \<and> spn_ctx_geterrtype (snd (snd (spn_ctx_callfunc K ctx func ret argv))) =
         (if fst (spn_vm_callfunc K (vm ctx) func ret argv) \<noteq> 0
          then SPN_ERROR_RUNTIME else SPN_ERROR_OK)
   \<and> spn_ctx_execstring K ctx str ret =
         (case spn_ctx_loadstring K ctx str of
            (None, ctx1) \<Rightarrow> (- 1, ret, ctx1)
          | (Some b, ctx1) \<Rightarrow> spn_ctx_execbytecode K ctx1 b ret)
   \<and> spn_ctx_execsrcfile K ctx fname ret =
         (case spn_ctx_loadsrcfile K ctx fname of
            (None, ctx1) \<Rightarrow> (- 1, ret, ctx1)
          | (Some b, ctx1) \<Rightarrow> spn_ctx_execbytecode K ctx1 b ret)
   \<and> spn_ctx_execobjfile K ctx fname ret =
         (case spn_ctx_loadobjfile K ctx fname of
            (None, ctx1) \<Rightarrow> (- 1, ret, ctx1)
          | (Some b, ctx1) \<Rightarrow> spn_ctx_execbytecode K ctx1 b ret)
   \<and> spn_ctx_geterrmsg K ctx =
         (case spn_ctx_geterrtype ctx of
            SPN_ERROR_OK \<Rightarrow> None
          | SPN_ERROR_SYNTAX \<Rightarrow> parser_errmsg K (parser ctx)
          | SPN_ERROR_SEMANTIC \<Rightarrow> spn_compiler_errmsg K (cmp ctx)
          | SPN_ERROR_RUNTIME \<Rightarrow> spn_vm_geterrmsg K (vm ctx)
          | SPN_ERROR_GENERIC \<Rightarrow> errmsg ctx)"
proof -
  have r1: "spn_ctx_loadstring K (ctx\<lparr>errtype := e\<rparr>) str = spn_ctx_loadstring K ctx str"
    for ctx :: "('a, 'b, 'c) SpnContext" and str and e
    by (simp add: spn_ctx_loadstring_def)
  have r2: "spn_ctx_loadsrcfile K (ctx\<lparr>errtype := e\<rparr>) fname = spn_ctx_loadsrcfile K ctx fname"
    by (simp add: spn_ctx_loadsrcfile_def)
  have r3: "spn_ctx_loadobjfile K (ctx\<lparr>errtype := e\<rparr>) fname = spn_ctx_loadobjfile K ctx fname"
    by (simp add: spn_ctx_loadobjfile_def)
  have r4: "spn_ctx_execbytecode K (ctx\<lparr>errtype := e\<rparr>) bc ret = spn_ctx_execbytecode K ctx bc ret"
    by (simp add: spn_ctx_execbytecode_def)
  have r5: "spn_ctx_callfunc K (ctx\<lparr>errtype := e\<rparr>) func ret argv = spn_ctx_callfunc K ctx func ret argv"
    by (simp add: spn_ctx_callfunc_def)
  have r6: "spn_ctx_execstring K (ctx\<lparr>errtype := e\<rparr>) str ret = spn_ctx_execstring K ctx str ret"
    by (simp add: spn_ctx_execstring_def r1)
  have r7: "spn_ctx_execsrcfile K (ctx\<lparr>errtype := e\<rparr>) fname ret = spn_ctx_execsrcfile K ctx fname ret"
    by (simp add: spn_ctx_execsrcfile_def r2)
  have r8: "spn_ctx_execobjfile K (ctx\<lparr>errtype := e\<rparr>) fname ret = spn_ctx_execobjfile K ctx fname ret"
    by (simp add: spn_ctx_execobjfile_def r3)
  have c1: "spn_ctx_geterrtype (snd (spn_ctx_loadstring K ctx str)) =
         (case fst (spn_parser_parse K (parser ctx) str) of
            None \<Rightarrow> SPN_ERROR_SYNTAX
          | Some t \<Rightarrow>
              (case fst (spn_compiler_compile K (cmp ctx) t) of
                 None \<Rightarrow> SPN_ERROR_SEMANTIC
               | Some b \<Rightarrow> SPN_ERROR_OK))"
    by (simp add: loadstring_cases spn_ctx_geterrtype_def split: prod.splits option.splits)
  have c2: "spn_ctx_geterrtype (snd (spn_ctx_loadsrcfile K ctx fname)) =
         (case spn_read_text_file K fname of
            None \<Rightarrow> SPN_ERROR_GENERIC
          | Some src \<Rightarrow> spn_ctx_geterrtype (snd (spn_ctx_loadstring K ctx src)))"
    by (simp add: spn_ctx_loadsrcfile_def r1 spn_ctx_geterrtype_def split: option.splits)
  have c3: "spn_ctx_geterrtype (snd (spn_ctx_loadobjfile K ctx fname)) =
         (case spn_read_binary_file K fname of
            None \<Rightarrow> SPN_ERROR_GENERIC
          | Some b \<Rightarrow> SPN_ERROR_OK)"
    by (simp add: spn_ctx_loadobjfile_def prepend_bytecode_list_def spn_ctx_geterrtype_def
             split: option.splits prod.splits)
  have c4: "fst (spn_ctx_execbytecode K ctx bc ret) = fst (spn_vm_exec K (vm ctx) bc ret)
     \<and> spn_ctx_geterrtype (snd (snd (spn_ctx_execbytecode K ctx bc ret))) =
         (if fst (spn_vm_exec K (vm ctx) bc ret) \<noteq> 0 then SPN_ERROR_RUNTIME else SPN_ERROR_OK)"
    by (simp add: spn_ctx_execbytecode_def spn_ctx_geterrtype_def split: prod.splits)
  have c5: "fst (spn_ctx_callfunc K ctx func ret argv) = fst (spn_vm_callfunc K (vm ctx) func ret argv)
     \<and> spn_ctx_geterrtype (snd (snd (spn_ctx_callfunc K ctx func ret argv))) =
         (if fst (spn_vm_callfunc K (vm ctx) func ret argv) \<noteq> 0
          then SPN_ERROR_RUNTIME else SPN_ERROR_OK)"
    by (simp add: spn_ctx_callfunc_def spn_ctx_geterrtype_def split: prod.splits)
  have c6: "spn_ctx_execstring K ctx str ret =
         (case spn_ctx_loadstring K ctx str of
            (None, ctx1) \<Rightarrow> (- 1, ret, ctx1)
          | (Some b, ctx1) \<Rightarrow> spn_ctx_execbytecode K ctx1 b ret)"
    by (simp add: spn_ctx_execstring_def)
  have c7: "spn_ctx_execsrcfile K ctx fname ret =
         (case spn_ctx_loadsrcfile K ctx fname of
            (None, ctx1) \<Rightarrow> (- 1, ret, ctx1)
          | (Some b, ctx1) \<Rightarrow> spn_ctx_execbytecode K ctx1 b ret)"
    by (simp add: spn_ctx_execsrcfile_def)
  have c8: "spn_ctx_execobjfile K ctx fname ret =
         (case spn_ctx_loadobjfile K ctx fname of
            (None, ctx1) \<Rightarrow> (- 1, ret, ctx1)
          | (Some b, ctx1) \<Rightarrow> spn_ctx_execbytecode K ctx1 b ret)"
    by (simp add: spn_ctx_execobjfile_def)
  have m: "spn_ctx_geterrmsg K ctx =
         (case spn_ctx_geterrtype ctx of
            SPN_ERROR_OK \<Rightarrow> None
          | SPN_ERROR_SYNTAX \<Rightarrow> parser_errmsg K (parser ctx)
          | SPN_ERROR_SEMANTIC \<Rightarrow> spn_compiler_errmsg K (cmp ctx)
          | SPN_ERROR_RUNTIME \<Rightarrow> spn_vm_geterrmsg K (vm ctx)
          | SPN_ERROR_GENERIC \<Rightarrow> errmsg ctx)"
    by (simp add: spn_ctx_geterrmsg_def spn_ctx_geterrtype_def)
  from r1 r2 r3 r4 r5 r6 r7 r8 c1 c2 c3 c4 c5 c6 c7 c8 m show ?thesis by blast
qed

theorem error_category_witness:
  "spn_ctx_geterrtype (snd (spn_ctx_loadstring K0 (ctx0\<lparr>errtype := SPN_ERROR_RUNTIME\<rparr>) ''@@@''))
     = SPN_ERROR_SYNTAX
   \<and> spn_ctx_geterrtype (snd (spn_ctx_loadsrcfile K0 ctx0 ''nofile'')) = SPN_ERROR_GENERIC
   \<and> spn_ctx_geterrtype (snd (spn_ctx_loadobjfile K0 ctx0 ''main.spo'')) = SPN_ERROR_OK
   \<and> fst (spn_ctx_execbytecode K0 ctx0 [] SpnNil) = - 1
   \<and> spn_ctx_geterrtype (snd (snd (spn_ctx_execbytecode K0 ctx0 [] SpnNil))) = SPN_ERROR_RUNTIME
   \<and> spn_ctx_geterrmsg K0 (snd (snd (spn_ctx_execbytecode K0 ctx0 [] SpnNil))) = Some ''empty bytecode''
   \<and> spn_ctx_geterrmsg K0 ctx0 = None"
proof -
  note a = error_category [where K = K0 and ctx = ctx0 and str = "''@@@''" and fname = "''nofile''"
          and e = SPN_ERROR_RUNTIME and bc = "[]" and ret = SpnNil]
  note b = error_category [where K = K0 and ctx = ctx0 and fname = "''main.spo''"]
  have 1: "spn_ctx_geterrtype (snd (spn_ctx_loadstring K0 (ctx0\<lparr>errtype := SPN_ERROR_RUNTIME\<rparr>) ''@@@''))
     = SPN_ERROR_SYNTAX" using a by simp
  have 2: "spn_ctx_geterrtype (snd (spn_ctx_loadsrcfile K0 ctx0 ''nofile'')) = SPN_ERROR_GENERIC"
    using a by simp
  have 3: "spn_ctx_geterrtype (snd (spn_ctx_loadobjfile K0 ctx0 ''main.spo'')) = SPN_ERROR_OK"
    using b by simp
  have 4: "fst (spn_ctx_execbytecode K0 ctx0 [] SpnNil) = - 1
     \<and> spn_ctx_geterrtype (snd (snd (spn_ctx_execbytecode K0 ctx0 [] SpnNil))) = SPN_ERROR_RUNTIME"
    using a by simp
  have 5: "spn_ctx_geterrmsg K0 (snd (snd (spn_ctx_execbytecode K0 ctx0 [] SpnNil))) = Some ''empty bytecode''"
    by (simp add: spn_ctx_geterrmsg_def spn_ctx_execbytecode_def)
  have 6: "spn_ctx_geterrmsg K0 ctx0 = None"
    using a by (simp add: spn_ctx_geterrtype_def ctx0_def)
  from 1 2 3 4 5 6 show ?thesis by blast
qed

section \<open>Strings: substr, split and join, printf\<close>

text \<open>
  C6: \<open>substr(s, start, len)\<close> succeeds exactly when \<open>0 \<le> start \<le> length s\<close>, \<open>0 \<le> len\<close> and
  \<open>start + len \<le> length s\<close>, and then returns the \<open>len\<close> bytes of \<open>s\<close> from \<open>start\<close> on. A
  start outside \<open>[0, length s]\<close> fails with status -1 and the message about the starting
  index; otherwise a length outside \<open>[0, length s]\<close> fails with -2 and the message about the
  length; otherwise an end past the string fails with -3 and the message about the end of
  the substring. The message is the one the virtual machine is given by
  \<open>spn_vm_seterrmsg\<close>; nothing else of the context changes, and a failure leaves the result
  slot as it was. In particular
  \<open>substr(s, 0, length s)\<close> is \<open>s\<close>, and \<open>substr(s, i, 0)\<close> is the empty string for every
  \<open>i\<close> in \<open>[0, length s]\<close>.
\<close>

theorem substr_policy:
  "(0 \<le> start \<and> start \<le> int (length s) \<and> 0 \<le> len \<and> start + len \<le> int (length s) \<longrightarrow>
      rtlb_substr K ret [SpnString s, SpnInt start, SpnInt len] ctx
        = (0, SpnString (take (nat len) (drop (nat start) s)), ctx)
      \<and> length (take (nat len) (drop (nat start) s)) = nat len
      \<and> (\<forall>k < nat len. take (nat len) (drop (nat start) s) ! k = s ! (nat start + k)))
   \<and> (start < 0 \<or> int (length s) < start \<longrightarrow>
      rtlb_substr K ret [SpnString s, SpnInt start, SpnInt len] ctx
        = (- 1, ret, ctx\<lparr>vm := spn_vm_seterrmsg K (vm ctx) ''starting index is negative or too high'' []\<rparr>))
   \<and> (0 \<le> start \<and> start \<le> int (length s) \<and> (len < 0 \<or> int (length s) < len) \<longrightarrow>
      rtlb_substr K ret [SpnString s, SpnInt start, SpnInt len] ctx
        = (- 2, ret, ctx\<lparr>vm := spn_vm_seterrmsg K (vm ctx) ''length is negative or too big'' []\<rparr>))
   \<and> (0 \<le> start \<and> start \<le> int (length s) \<and> 0 \<le> len \<and> len \<le> int (length s)
        \<and> int (length s) < start + len \<longrightarrow>
      rtlb_substr K ret [SpnString s, SpnInt start, SpnInt len] ctx
        = (- 3, ret, ctx\<lparr>vm := spn_vm_seterrmsg K (vm ctx) ''end of substring is out of bounds'' []\<rparr>))
   \<and> rtlb_substr K ret [SpnString s, SpnInt 0, SpnInt (int (length s))] ctx = (0, SpnString s, ctx)
   \<and> (0 \<le> i \<and> i \<le> int (length s) \<longrightarrow>
      rtlb_substr K ret [SpnString s, SpnInt i, SpnInt 0] ctx = (0, SpnString [], ctx))"
  by (auto simp: rtlb_substr_def rtlb_aux_substr_def spn_ctx_runtime_error_def Let_def)

theorem substr_policy_witness:
  "rtlb_substr K0 SpnNil [SpnString ''hello'', SpnInt 1, SpnInt 3] ctx0 = (0, SpnString ''ell'', ctx0)
   \<and> rtlb_substr K0 SpnNil [SpnString ''hello'', SpnInt 6, SpnInt 0] ctx0
       = (- 1, SpnNil, ctx0\<lparr>vm := Some (''starting index is negative or too high'', [])\<rparr>)
   \<and> rtlb_substr K0 SpnNil [SpnString ''hello'', SpnInt 2, SpnInt (- 1)] ctx0
       = (- 2, SpnNil, ctx0\<lparr>vm := Some (''length is negative or too big'', [])\<rparr>)
   \<and> rtlb_substr K0 SpnNil [SpnString ''hello'', SpnInt 3, SpnInt 3] ctx0
       = (- 3, SpnNil, ctx0\<lparr>vm := Some (''end of substring is out of bounds'', [])\<rparr>)
   \<and> rtlb_substr K0 SpnNil [SpnString ''hello'', SpnInt 5, SpnInt 0] ctx0 = (0, SpnString [], ctx0)"
  using substr_policy [of 1 "''hello''" 3 K0 SpnNil ctx0 5]
        substr_policy [of 6 "''hello''" 0 K0 SpnNil ctx0 5]
        substr_policy [of 2 "''hello''" "- 1" K0 SpnNil ctx0 5]
        substr_policy [of 3 "''hello''" 3 K0 SpnNil ctx0 5]
  by simp

lemma strstr_Some:
  "strstr h n = Some t \<Longrightarrow> t + length n \<le> length h \<and> take (length n) (drop t h) = n"
proof (induction h arbitrary: t)
  case Nil
  then show ?case by (auto split: if_splits)
next
  case (Cons c h)
  show ?case
  proof (cases "take (length n) (c # h) = n")
    case True
    with Cons.prems have "t = 0" by simp
    moreover from arg_cong [OF True, of length] have "length n \<le> length (c # h)"
      by simp
    ultimately show ?thesis using True by simp
  next
    case False
    with Cons.prems obtain t' where t': "strstr h n = Some t'" "t = Suc t'" by auto
    from Cons.IH [OF t'(1)] t'(2) show ?thesis by simp
  qed
qed

lemma strstr_None:
  "strstr h n = None \<Longrightarrow> t \<le> length h \<Longrightarrow> take (length n) (drop t h) \<noteq> n"
proof (induction h arbitrary: t)
  case Nil
  then show ?case by (auto split: if_splits)
next
  case (Cons c h)
  from Cons.prems(1) have ne: "take (length n) (c # h) \<noteq> n" and rest: "strstr h n = None"
    by (auto split: if_splits)
  show ?case
  proof (cases t)
    case 0
    with ne show ?thesis by simp
  next
    case (Suc t')
    with Cons.prems(2) have "t' \<le> length h" by simp
    from Cons.IH [OF rest this] Suc show ?thesis by simp
  qed
qed

lemma strstr_least:
  "strstr h n = Some t \<Longrightarrow> u < t \<Longrightarrow> take (length n) (drop u h) \<noteq> n"
proof (induction h arbitrary: t u)
  case Nil
  then show ?case by (auto split: if_splits)
next
  case (Cons c h)
  from Cons.prems have ne: "take (length n) (c # h) \<noteq> n"
    by (auto split: if_splits)
  with Cons.prems obtain t' where t': "strstr h n = Some t'" "t = Suc t'" by auto
  show ?case
  proof (cases u)
    case 0
    with ne show ?thesis by simp
  next
    case (Suc u')
    with Cons.prems(2) t'(2) have "u' < t'" by simp
    from Cons.IH [OF t'(1) this] Suc show ?thesis by simp
  qed
qed

lemma take_drop_take: "u + k \<le> t \<Longrightarrow> take k (drop u (take t xs)) = take k (drop u xs)"
proof -
  assume "u + k \<le> t"
  then have "min k (t - u) = k" by simp
  then show ?thesis by (simp add: drop_take)
qed

lemma cstr_prefix: "\<exists>r. s = cstr s @ r"
  unfolding cstr_def by (metis takeWhile_dropWhile_id)

lemma cstr_id: "NUL \<notin> set s \<Longrightarrow> cstr s = s"
  unfolding cstr_def by (auto simp: takeWhile_eq_all_conv)

lemma cstr_no_NUL: "NUL \<notin> set (cstr s)"
  unfolding cstr_def using set_takeWhileD by fastforce

lemma match_in_cstr:
  assumes "strstr (cstr s) n = Some t"
  shows "t + length n \<le> length s \<and> take (length n) (drop t s) = n \<and> cstr (take t s) = take t s"
proof -
  from strstr_Some [OF assms]
  have le: "t + length n \<le> length (cstr s)" and eq: "take (length n) (drop t (cstr s)) = n"
    by auto
  obtain r where r: "s = cstr s @ r" using cstr_prefix by blast
  have "length (cstr s) \<le> length s" by (metis r length_append le_add1)
  with le have 1: "t + length n \<le> length s" by simp
  have "take (length n) (drop t s) = take (length n) (drop t (cstr s @ r))" using r by simp
  also have "\<dots> = take (length n) (drop t (cstr s))" using le by simp
  finally have 2: "take (length n) (drop t s) = n" using eq by simp
  have "take t s = take t (cstr s @ r)" using r by simp
  also have "\<dots> = take t (cstr s)" using le by simp
  finally have "take t s = take t (cstr s)" .
  then have "NUL \<notin> set (take t s)" using cstr_no_NUL [of s] by (metis in_set_takeD)
  then have 3: "cstr (take t s) = take t s" by (rule cstr_id)
  from 1 2 3 show ?thesis by simp
qed

lemma join_loop_Suc:
  "join_loop (map SpnString ps) d (Suc i) buf = Some (buf @ concat (map (\<lambda>p. d @ p) ps))"
  by (induction ps arbitrary: i buf) simp_all


lemma join_loop_Cons:
  "join_loop (map SpnString (p # ps)) d 0 [] = Some (p @ concat (map (\<lambda>q. d @ q) ps))"
  by (simp add: join_loop_Suc)

lemma split_loop_pieces:
  assumes "needle \<noteq> []" and "NUL \<notin> set needle"
  shows "\<exists>ps. split_loop needle s arr = Some (arr @ map SpnString ps) \<and> ps \<noteq> []
           \<and> join_loop (map SpnString ps) needle 0 [] = Some s
           \<and> (\<forall>p \<in> set ps. strstr (cstr p) needle = None)"
proof (induction "length s" arbitrary: s arr rule: less_induct)
  case less
  have cn: "cstr needle = needle" using assms(2) by (rule cstr_id)
  show ?case
  proof (cases "strstr (cstr s) needle")
    case None
    then have "split_loop needle s arr = Some (arr @ map SpnString [s])"
      by (subst split_loop.simps) (simp add: cn)
    with None show ?thesis by (intro exI [of _ "[s]"]) simp
  next
    case (Some t)
    from match_in_cstr [OF Some]
    have le: "t + length needle \<le> length s"
      and eq: "take (length needle) (drop t s) = needle"
      and pc: "cstr (take t s) = take t s" by auto
    let ?rest = "drop (t + length needle) s"
    have "length ?rest < length s" using le assms(1) by (cases needle) auto
    from less [OF this, of "arr @ [SpnString (take t s)]"]
    obtain ps where ps: "split_loop needle ?rest (arr @ [SpnString (take t s)])
          = Some ((arr @ [SpnString (take t s)]) @ map SpnString ps)"
       "ps \<noteq> []" "join_loop (map SpnString ps) needle 0 [] = Some ?rest"
       "\<forall>p \<in> set ps. strstr (cstr p) needle = None"
      by blast
    have run: "split_loop needle s arr = Some (arr @ map SpnString (take t s # ps))"
      using Some le ps(1) by (subst split_loop.simps) (simp add: cn)
    have "s = take t s @ take (length needle) (drop t s) @ drop (length needle) (drop t s)"
      by (metis append_take_drop_id)
    then have s: "s = take t s @ needle @ ?rest" using eq by (simp add: add.commute)
    obtain q qs where qs: "ps = q # qs" using ps(2) by (cases ps) auto
    from ps(3) have rest: "?rest = q @ concat (map (\<lambda>r. needle @ r) qs)"
      unfolding qs join_loop_Cons by simp
    have "join_loop (map SpnString (take t s # ps)) needle 0 []
            = Some (take t s @ needle @ ?rest)"
      unfolding join_loop_Cons qs using rest by simp
    then have j: "join_loop (map SpnString (take t s # ps)) needle 0 [] = Some s"
      using s by simp
    have first: "strstr (cstr (take t s)) needle = None"
    proof (rule ccontr)
      assume "strstr (cstr (take t s)) needle \<noteq> None"
      then obtain u where u: "strstr (take t s) needle = Some u" using pc by auto
      from strstr_Some [OF u] have ule: "u + length needle \<le> t"
        and ueq: "take (length needle) (drop u (take t s)) = needle" by auto
      have tle: "t \<le> length (cstr s)" using strstr_Some [OF Some] by simp
      have "u < t" using ule assms(1) by (cases needle) auto
      from strstr_least [OF Some this]
      have "take (length needle) (drop u (cstr s)) \<noteq> needle" .
      moreover have "take t s = take t (cstr s)"
        by (metis cstr_prefix tle take_append diff_is_0_eq take_0 append_Nil2)
      with ueq have "take (length needle) (drop u (take t (cstr s))) = needle" by simp
      then have "take (length needle) (drop u (cstr s)) = needle"
        by (simp only: take_drop_take [OF ule])
      ultimately show False by simp
    qed
    show ?thesis using run j first ps(4) by (intro exI [of _ "take t s # ps"]) simp
  qed
qed

text \<open>
  Where the separator is not empty and has no NUL byte, the search and the skip of
  \<open>rtlb_split\<close> agree: for every string \<open>s\<close>, \<open>split(s, sep)\<close> returns status 0 and an array
  of at least one string, and \<open>join\<close> of that array with the same separator returns \<open>s\<close>.
  \<open>split\<close> on the empty separator fails with status -3 and the message "cannot split on
  empty string".
\<close>

lemma split_join_no_NUL:
  assumes "sep \<noteq> []" and "NUL \<notin> set sep"
  shows "(\<exists>pieces. rtlb_split K ret [SpnString s, SpnString sep] ctx
                     = Some (0, SpnArray (map SpnString pieces), ctx)
            \<and> rtlb_join K ret' [SpnArray (map SpnString pieces), SpnString sep] ctx'
                     = (0, SpnString s, ctx')
            \<and> pieces \<noteq> [] \<and> (\<forall>p \<in> set pieces. strstr (cstr p) sep = None))
         \<and> rtlb_split K ret [SpnString s, SpnString []] ctx
              = Some (- 3, ret,
                      ctx\<lparr>vm := spn_vm_seterrmsg K (vm ctx) ''cannot split on empty string'' []\<rparr>)"
proof -
  from split_loop_pieces [OF assms, of s "[]"]
  obtain ps where ps: "split_loop sep s [] = Some (map SpnString ps)" "ps \<noteq> []"
      "join_loop (map SpnString ps) sep 0 [] = Some s"
      "\<forall>p \<in> set ps. strstr (cstr p) sep = None"
    by auto
  have "rtlb_split K ret [SpnString s, SpnString sep] ctx = Some (0, SpnArray (map SpnString ps), ctx)"
    using assms(1) ps(1) by (simp add: rtlb_split_def)
  moreover have "rtlb_join K ret' [SpnArray (map SpnString ps), SpnString sep] ctx'
                   = (0, SpnString s, ctx')"
    using ps(3) by (simp add: rtlb_join_def)
  moreover have "rtlb_split K ret [SpnString s, SpnString []] ctx
              = Some (- 3, ret,
                      ctx\<lparr>vm := spn_vm_seterrmsg K (vm ctx) ''cannot split on empty string'' []\<rparr>)"
    by (simp add: rtlb_split_def spn_ctx_runtime_error_def)
  ultimately show ?thesis using ps(2) ps(4) by blast
qed

lemma split_join_no_NUL_example:
  "'','' \<noteq> [] \<and> NUL \<notin> set '',''
   \<and> rtlb_split K0 SpnNil [SpnString '',a,'', SpnString '',''] ctx0
       = Some (0, SpnArray [SpnString [], SpnString ''a'', SpnString []], ctx0)
   \<and> rtlb_join K0 SpnNil [SpnArray [SpnString [], SpnString ''a'', SpnString []], SpnString '',''] ctx0
       = (0, SpnString '',a,'', ctx0)"
proof -
  have h: "'','' \<noteq> []" "NUL \<notin> set '',''" by (simp_all add: NUL_def)
  note split_join_no_NUL [OF h, of K0 SpnNil "'',a,''" ctx0 SpnNil ctx0]
  moreover have "rtlb_split K0 SpnNil [SpnString '',a,'', SpnString '',''] ctx0
       = Some (0, SpnArray [SpnString [], SpnString ''a'', SpnString []], ctx0)"
    by (simp add: rtlb_split_def split_loop.simps cstr_def NUL_def)
  ultimately show ?thesis using h by auto
qed

text \<open>
  C5: the claim fails, and \<open>rtlb_split\<close> misses what it attempts. It finds the separator
  with \<open>strstr\<close>, which reads the separator as a C string, up to its first NUL byte, but it
  skips \<open>needle->len\<close> bytes after a match. With the three-byte separator comma, NUL, x:
  \<open>split("a,bcd", sep)\<close> matches the comma alone and skips three bytes, so it returns the
  pieces a and d, the bytes b and c that were never matched are lost, and \<open>join\<close> of the
  pieces gives another string; \<open>split("a,", sep)\<close> moves its pointer past the terminating
  NUL of the haystack, and the next \<open>strstr\<close> reads outside the buffer: the call has no
  defined result.
\<close>

theorem split_skips_needle_len:
  "rtlb_split K0 SpnNil [SpnString ''a,bcd'', SpnString [CHR '','', NUL, CHR ''x'']] ctx0
     = Some (0, SpnArray [SpnString ''a'', SpnString ''d''], ctx0)
   \<and> rtlb_join K0 SpnNil [SpnArray [SpnString ''a'', SpnString ''d''],
                           SpnString [CHR '','', NUL, CHR ''x'']] ctx0
     = (0, SpnString [CHR ''a'', CHR '','', NUL, CHR ''x'', CHR ''d''], ctx0)
   \<and> [CHR ''a'', CHR '','', NUL, CHR ''x'', CHR ''d''] \<noteq> ''a,bcd''
   \<and> rtlb_split K0 SpnNil [SpnString ''a,'', SpnString [CHR '','', NUL, CHR ''x'']] ctx0 = None"
  by (simp add: rtlb_split_def rtlb_join_def split_loop.simps cstr_def NUL_def)

lemma cstr_length: "length (cstr s) \<le> length s"
  unfolding cstr_def by (rule length_takeWhile_le)

lemma cstr_NUL_shorter: "NUL \<in> set s \<Longrightarrow> length (cstr s) < length s"
proof -
  assume "NUL \<in> set s"
  then have "cstr s \<noteq> s" using cstr_no_NUL [of s] by auto
  moreover obtain r where "s = cstr s @ r" using cstr_prefix by blast
  ultimately show ?thesis by (metis append_Nil2 cstr_length le_neq_implies_less length_append
        add_cancel_right_right length_0_conv)
qed

text \<open>
  C4 (amended): when the format engine expands the format and the arguments to \<open>res\<close>,
  \<open>printf\<close> returns status 0 and the integer \<open>length res\<close>, and writes to \<open>stdout\<close> the bytes
  of \<open>res\<close> that precede its first NUL byte. When \<open>res\<close> contains no NUL byte the whole of
  \<open>res\<close> is written and the integer returned is the number of bytes written; when it
  contains one, fewer bytes are written than the integer says. In particular, when the
  expansion is \<open>x=7\<close>, as for \<open>printf("%s=%d", "x", 7)\<close>, \<open>printf\<close> writes \<open>x=7\<close> with no
  newline and returns \<open>Int 3\<close>.
\<close>

theorem printf_result:
  assumes "spn_string_format_obj K fmt args = Inr res"
  shows "rtlb_printf K ret (SpnString fmt # args) ctx out
           = (0, SpnInt (int (length res)), ctx, out @ cstr res)
         \<and> (NUL \<notin> set res \<longrightarrow> cstr res = res)
         \<and> (NUL \<in> set res \<longrightarrow> length (cstr res) < length res)
         \<and> (res = ''x=7'' \<longrightarrow>
              rtlb_printf K ret (SpnString fmt # args) ctx out = (0, SpnInt 3, ctx, out @ ''x=7''))"
proof -
  have run: "rtlb_printf K ret (SpnString fmt # args) ctx out
           = (0, SpnInt (int (length res)), ctx, out @ cstr res)"
    using assms by (simp add: rtlb_printf_def)
  have "cstr ''x=7'' = ''x=7''" by (simp add: cstr_def NUL_def)
  with run show ?thesis by (auto simp: cstr_id cstr_NUL_shorter)
qed

lemma format_fragment_example:
  "format_fragment ''%s=%d'' [SpnString ''x'', SpnInt 7] = Inr ''x=7''"
  by code_simp

lemma format_fragment_NUL: "format_fragment ''%c'' [SpnInt 0] = Inr [NUL]"
  by code_simp

theorem printf_result_witness:
  "spn_string_format_obj K0 ''%s=%d'' [SpnString ''x'', SpnInt 7] = Inr ''x=7''
   \<and> rtlb_printf K0 SpnNil [SpnString ''%s=%d'', SpnString ''x'', SpnInt 7] ctx0 []
       = (0, SpnInt 3, ctx0, ''x=7'')"
proof -
  have h: "spn_string_format_obj K0 ''%s=%d'' [SpnString ''x'', SpnInt 7] = Inr ''x=7''"
    by (simp add: format_fragment_example del: format_fragment.simps)
  from printf_result [OF h, of SpnNil ctx0 "[]"] h show ?thesis
    by (simp add: NUL_def cstr_def del: format_fragment.simps)
qed

text \<open>
  The claim as stated fails twice. \<open>printf("%s=%d", "x", 7)\<close> writes the three bytes \<open>x=7\<close>
  and returns \<open>Int 3\<close>, not \<open>Int 4\<close>. And the integer returned is not the number of bytes
  written when the expansion contains a NUL byte: \<open>printf("%c", 0)\<close> writes nothing and
  returns \<open>Int 1\<close>.
\<close>

theorem printf_counterexample:
  "rtlb_printf K0 SpnNil [SpnString ''%s=%d'', SpnString ''x'', SpnInt 7] ctx0 []
     = (0, SpnInt 3, ctx0, ''x=7'')
   \<and> SpnInt 3 \<noteq> SpnInt 4
   \<and> rtlb_printf K0 SpnNil [SpnString ''%c'', SpnInt 0] ctx0 [] = (0, SpnInt 1, ctx0, [])"
  by (simp add: rtlb_printf_def format_fragment_example format_fragment_NUL cstr_def NUL_def
           del: format_fragment.simps)

section \<open>range\<close>

lemma range_loop_upto: "range_loop i n acc = acc @ map SpnInt [i..n - 1]"
proof (induction i n acc rule: range_loop.induct)
  case (1 i n acc)
  show ?case
  proof (cases "i < n")
    case True
    then have "[i..n - 1] = i # [i + 1..n - 1]" by (simp add: upto_rec1)
    with True "1.IH" show ?thesis by (subst range_loop.simps) simp
  next
    case False
    then show ?thesis by (subst range_loop.simps) simp
  qed
qed

lemma range_float_loop_returns:
  assumes "0 \<le> i" and "i \<le> k" and "k \<le> LONG_MAX K"
      and "\<forall>j. i \<le> j \<and> j < k \<longrightarrow> dle (range_term K bg st j) en"
      and "\<not> dle (range_term K bg st k) en"
  shows "range_float_loop K bg en st i (range_term K bg st i) rng
           = Some (rng @ map (\<lambda>j. SpnFloat (range_term K bg st j)) [i..k - 1])"
  using assms
proof (induction "nat (k - i)" arbitrary: i rng)
  case 0
  then have "i = k" by simp
  with "0.prems"(5) show ?case by (subst range_float_loop.simps) simp
next
  case (Suc n)
  then have lt: "i < k" by simp
  then have le: "dle (range_term K bg st i) en" using Suc.prems(1,4) by simp
  have n: "n = nat (k - (i + 1))" using Suc.hyps(2) by linarith
  have nxt: "range_term K bg st (i + 1)
               = dadd (double_of_real K) bg (dmul (double_of_real K) st (double_of_long K (i + 1)))"
    using Suc.prems(1) by (simp add: range_term_def)
  have "0 \<le> i + 1" "i + 1 \<le> k" "\<forall>j. i + 1 \<le> j \<and> j < k \<longrightarrow> dle (range_term K bg st j) en"
    using Suc.prems(1,4) lt by auto
  from Suc.hyps(1) [OF n this(1,2) Suc.prems(3) this(3) Suc.prems(5),
      of "rng @ [SpnFloat (range_term K bg st i)]"]
  have ih: "range_float_loop K bg en st (i + 1) (range_term K bg st (i + 1))
              (rng @ [SpnFloat (range_term K bg st i)])
            = Some ((rng @ [SpnFloat (range_term K bg st i)])
                    @ map (\<lambda>j. SpnFloat (range_term K bg st j)) [i + 1..k - 1])" .
  have up: "[i..k - 1] = i # [i + 1..k - 1]" using lt by (simp add: upto_rec1)
  have "i < LONG_MAX K" using lt Suc.prems(3) by simp
  with le ih show ?case
    by (subst range_float_loop.simps) (simp add: nxt [symmetric] up)
qed

lemma range_float_loop_none:
  assumes "0 \<le> i" and "i \<le> LONG_MAX K"
      and "\<forall>j. i \<le> j \<and> j \<le> LONG_MAX K \<longrightarrow> dle (range_term K bg st j) en"
  shows "range_float_loop K bg en st i (range_term K bg st i) rng = None"
  using assms
proof (induction "nat (LONG_MAX K - i)" arbitrary: i rng)
  case 0
  then have "i = LONG_MAX K" by simp
  with "0.prems"(3) show ?case by (subst range_float_loop.simps) simp
next
  case (Suc n)
  then have lt: "i < LONG_MAX K" by simp
  have le: "dle (range_term K bg st i) en" using Suc.prems(2,3) by simp
  have n: "n = nat (LONG_MAX K - (i + 1))" using Suc.hyps(2) by linarith
  have nxt: "range_term K bg st (i + 1)
               = dadd (double_of_real K) bg (dmul (double_of_real K) st (double_of_long K (i + 1)))"
    using Suc.prems(1) by (simp add: range_term_def)
  have "0 \<le> i + 1" "i + 1 \<le> LONG_MAX K"
    "\<forall>j. i + 1 \<le> j \<and> j \<le> LONG_MAX K \<longrightarrow> dle (range_term K bg st j) en"
    using Suc.prems lt by auto
  from Suc.hyps(1) [OF n this, of "rng @ [SpnFloat (range_term K bg st i)]"] le lt
  show ?case by (subst range_float_loop.simps) (simp add: nxt [symmetric])
qed

text \<open>The first index, if any, at which the test of the loop fails.\<close>

lemma first_failure:
  assumes "0 \<le> m" and "m \<le> n" and "\<not> P m"
  shows "\<exists>k. 0 \<le> k \<and> k \<le> n \<and> (\<forall>j. 0 \<le> j \<and> j < k \<longrightarrow> P j) \<and> \<not> P (k::int)"
proof -
  define Q where "Q = (\<lambda>i::nat. \<not> P (int i))"
  have "Q (nat m)" using assms(1,3) by (simp add: Q_def)
  then obtain k where k: "Q k" "\<forall>i<k. \<not> Q i" "k \<le> nat m"
    by (metis LeastI Least_le not_less_Least)
  have "\<forall>j. 0 \<le> j \<and> j < int k \<longrightarrow> P j"
  proof (intro allI impI)
    fix j assume "0 \<le> j \<and> j < int k"
    then have "nat j < k" "int (nat j) = j" by auto
    with k(2) show "P j" by (metis Q_def)
  qed
  moreover have "\<not> P (int k)" using k(1) by (simp add: Q_def)
  moreover have "int k \<le> n" using k(3) assms(1,2) by linarith
  ultimately show ?thesis by (intro exI [of _ "int k"]) simp
qed

lemma range_float_run:
  assumes "0 \<le> LONG_MAX K"
  shows "(range_float_loop K bg en st 0 bg [] = None)
           = (\<forall>j. 0 \<le> j \<and> j \<le> LONG_MAX K \<longrightarrow> dle (range_term K bg st j) en)"
    and "range_float_loop K bg en st 0 bg [] = Some rng \<Longrightarrow>
         \<exists>k. 0 \<le> k \<and> k \<le> LONG_MAX K \<and> (\<forall>j. 0 \<le> j \<and> j < k \<longrightarrow> dle (range_term K bg st j) en)
            \<and> \<not> dle (range_term K bg st k) en
            \<and> rng = map (\<lambda>j. SpnFloat (range_term K bg st j)) [0..k - 1]"
proof -
  have t0: "range_term K bg st 0 = bg" by (simp add: range_term_def)
  have ret: "range_float_loop K bg en st 0 bg []
               = Some (map (\<lambda>j. SpnFloat (range_term K bg st j)) [0..k - 1])"
    if "0 \<le> k" "k \<le> LONG_MAX K" "\<forall>j. 0 \<le> j \<and> j < k \<longrightarrow> dle (range_term K bg st j) en"
       "\<not> dle (range_term K bg st k) en" for k
    using range_float_loop_returns [OF order_refl that(1,2,3,4), of "[]"] by (simp add: t0)
  have cases:
    "(\<exists>k. 0 \<le> k \<and> k \<le> LONG_MAX K \<and> (\<forall>j. 0 \<le> j \<and> j < k \<longrightarrow> dle (range_term K bg st j) en)
          \<and> \<not> dle (range_term K bg st k) en)
     \<or> (\<forall>j. 0 \<le> j \<and> j \<le> LONG_MAX K \<longrightarrow> dle (range_term K bg st j) en)"
  proof (cases "\<forall>j. 0 \<le> j \<and> j \<le> LONG_MAX K \<longrightarrow> dle (range_term K bg st j) en")
    case True
    then show ?thesis by simp
  next
    case False
    then obtain m where "0 \<le> m" "m \<le> LONG_MAX K" "\<not> dle (range_term K bg st m) en" by blast
    from first_failure [of m "LONG_MAX K" "\<lambda>j. dle (range_term K bg st j) en", OF this]
    show ?thesis by blast
  qed
  have none: "range_float_loop K bg en st 0 bg [] = None"
    if "\<forall>j. 0 \<le> j \<and> j \<le> LONG_MAX K \<longrightarrow> dle (range_term K bg st j) en"
    using range_float_loop_none [OF order_refl assms, of bg st en "[]"] that by (simp add: t0)
  show "(range_float_loop K bg en st 0 bg [] = None)
           = (\<forall>j. 0 \<le> j \<and> j \<le> LONG_MAX K \<longrightarrow> dle (range_term K bg st j) en)"
  proof
    assume n: "range_float_loop K bg en st 0 bg [] = None"
    from cases show "\<forall>j. 0 \<le> j \<and> j \<le> LONG_MAX K \<longrightarrow> dle (range_term K bg st j) en"
    proof
      assume "\<exists>k. 0 \<le> k \<and> k \<le> LONG_MAX K \<and> (\<forall>j. 0 \<le> j \<and> j < k \<longrightarrow> dle (range_term K bg st j) en)
          \<and> \<not> dle (range_term K bg st k) en"
      then obtain k where "0 \<le> k" "k \<le> LONG_MAX K"
        "\<forall>j. 0 \<le> j \<and> j < k \<longrightarrow> dle (range_term K bg st j) en" "\<not> dle (range_term K bg st k) en"
        by blast
      from ret [OF this] n show ?thesis by simp
    qed
  next
    assume "\<forall>j. 0 \<le> j \<and> j \<le> LONG_MAX K \<longrightarrow> dle (range_term K bg st j) en"
    then show "range_float_loop K bg en st 0 bg [] = None" by (rule none)
  qed
  show "\<exists>k. 0 \<le> k \<and> k \<le> LONG_MAX K \<and> (\<forall>j. 0 \<le> j \<and> j < k \<longrightarrow> dle (range_term K bg st j) en)
            \<and> \<not> dle (range_term K bg st k) en
            \<and> rng = map (\<lambda>j. SpnFloat (range_term K bg st j)) [0..k - 1]"
    if s: "range_float_loop K bg en st 0 bg [] = Some rng"
  proof -
    from cases show ?thesis
    proof
      assume "\<exists>k. 0 \<le> k \<and> k \<le> LONG_MAX K \<and> (\<forall>j. 0 \<le> j \<and> j < k \<longrightarrow> dle (range_term K bg st j) en)
          \<and> \<not> dle (range_term K bg st k) en"
      then obtain k where k: "0 \<le> k" "k \<le> LONG_MAX K"
        "\<forall>j. 0 \<le> j \<and> j < k \<longrightarrow> dle (range_term K bg st j) en" "\<not> dle (range_term K bg st k) en"
        by blast
      from ret [OF this] s have "rng = map (\<lambda>j. SpnFloat (range_term K bg st j)) [0..k - 1]"
        by simp
      with k show ?thesis by blast
    next
      assume "\<forall>j. 0 \<le> j \<and> j \<le> LONG_MAX K \<longrightarrow> dle (range_term K bg st j) en"
      from none [OF this] s show ?thesis by simp
    qed
  qed
qed

lemma dle_trans: "dle x y \<Longrightarrow> dle y z \<Longrightarrow> dle x z"
  by (cases x; cases y; cases z) simp_all

lemma dle_Fin0: "dle x (Fin 0) \<Longrightarrow> x = NInf \<or> (\<exists>q. x = Fin q \<and> q \<le> 0)"
  by (cases x) simp_all

lemma dle_NInf: "y \<noteq> NaN \<Longrightarrow> dle NInf y"
  by (cases y) simp_all

lemma dle_PInf: "dle PInf y \<Longrightarrow> y = PInf"
  by (cases y) simp_all

lemma counter_finite:
  assumes "rounding K" and "1 \<le> j" and "j \<le> LONG_MAX K"
  shows "\<exists>c. double_of_long K j = Fin c \<and> 1 \<le> c"
proof -
  from assms obtain c where c: "double_of_long K j = Fin c"
    unfolding rounding_def by (metis order_trans zero_le_one)
  have "(1::real) \<le> of_int j" using assms(2) by simp
  with assms(1) have "dle (double_of_real K 1) (double_of_real K (of_int j))"
    unfolding rounding_def by blast
  with assms(1) c have "1 \<le> c" by (simp add: rounding_def double_of_long_def)
  with c show ?thesis by blast
qed

lemma product_nonpos:
  assumes "rounding K" and "dle S (Fin 0)" and "1 \<le> c"
  shows "dmul (double_of_real K) S (Fin c) = NInf
         \<or> (\<exists>q. dmul (double_of_real K) S (Fin c) = Fin q \<and> q \<le> 0)"
proof -
  from dle_Fin0 [OF assms(2)] show ?thesis
  proof
    assume "S = NInf"
    with assms(3) show ?thesis by simp
  next
    assume "\<exists>s. S = Fin s \<and> s \<le> 0"
    then obtain s where s: "S = Fin s" "s \<le> 0" by blast
    then have "s * c \<le> 0" using assms(3) by (simp add: mult_nonpos_nonneg)
    with assms(1) have "dle (double_of_real K (s * c)) (Fin 0)"
      unfolding rounding_def by metis
    from dle_Fin0 [OF this] s(1) show ?thesis by simp
  qed
qed

text \<open>
  With \<open>a \<le> b\<close> and a step that is not positive, a term of index at least 1 passes the test
  of the loop unless \<open>a\<close> is \<open>+\<infinity>\<close> and the product \<open>step * i\<close> is \<open>-\<infinity>\<close>, and then the term
  is a NaN.
\<close>

lemma term_nonpos_step:
  assumes r: "rounding K" and ab: "dle A B" and s: "dle S (Fin 0)" and d: "is_double K A"
      and j: "1 \<le> j" "j \<le> LONG_MAX K"
  shows "dle (range_term K A S j) B
         = (\<not> (A = PInf \<and> dmul (double_of_real K) S (double_of_long K j) = NInf))"
proof -
  from counter_finite [OF r j] obtain c where c: "double_of_long K j = Fin c" "1 \<le> c" by blast
  let ?p = "dmul (double_of_real K) S (Fin c)"
  have t: "range_term K A S j = dadd (double_of_real K) A ?p"
    using j(1) c(1) by (simp add: range_term_def)
  have B: "B \<noteq> NaN" using ab by (cases A; cases B) simp_all
  from product_nonpos [OF r s c(2)] show ?thesis
  proof
    assume p: "?p = NInf"
    show ?thesis
    proof (cases A)
      case NaN
      with ab show ?thesis by simp
    next
      case PInf
      with p t c(1) show ?thesis by simp
    next
      case NInf
      with p t c(1) B show ?thesis by (simp add: dle_NInf)
    next
      case (Fin a)
      with p t c(1) B show ?thesis by (simp add: dle_NInf)
    qed
  next
    assume "\<exists>q. ?p = Fin q \<and> q \<le> 0"
    then obtain q where q: "?p = Fin q" "q \<le> 0" by blast
    show ?thesis
    proof (cases A)
      case NaN
      with ab show ?thesis by simp
    next
      case PInf
      with q t c(1) ab show ?thesis by simp
    next
      case NInf
      with q t c(1) B show ?thesis by (simp add: dle_NInf)
    next
      case (Fin a)
      have "a + q \<le> a" using q(2) by simp
      with r have "dle (double_of_real K (a + q)) (double_of_real K a)"
        unfolding rounding_def by blast
      moreover have "double_of_real K a = Fin a" using d Fin by (simp add: is_double_def)
      ultimately have "dle (range_term K A S j) A" using t q(1) Fin by simp
      from dle_trans [OF this ab] Fin q(1) c(1) show ?thesis by simp
    qed
  qed
qed

lemma range_nonpos_step:
  assumes r: "rounding K" and ab: "dle A B" and s: "dle S (Fin 0)" and d: "is_double K A"
  shows "(range_float_loop K A B S 0 A [] = None)
         = (\<not> (A = PInf \<and> (\<exists>j. 1 \<le> j \<and> j \<le> LONG_MAX K
                  \<and> dmul (double_of_real K) S (double_of_long K j) = NInf)))"
proof -
  have L: "0 \<le> LONG_MAX K" using r by (simp add: rounding_def)
  have t0: "range_term K A S 0 = A" by (simp add: range_term_def)
  have "(\<forall>j. 0 \<le> j \<and> j \<le> LONG_MAX K \<longrightarrow> dle (range_term K A S j) B)
        = (\<forall>j. 1 \<le> j \<and> j \<le> LONG_MAX K \<longrightarrow> dle (range_term K A S j) B)"
  proof
    assume "\<forall>j. 0 \<le> j \<and> j \<le> LONG_MAX K \<longrightarrow> dle (range_term K A S j) B"
    then show "\<forall>j. 1 \<le> j \<and> j \<le> LONG_MAX K \<longrightarrow> dle (range_term K A S j) B" by simp
  next
    assume a: "\<forall>j. 1 \<le> j \<and> j \<le> LONG_MAX K \<longrightarrow> dle (range_term K A S j) B"
    show "\<forall>j. 0 \<le> j \<and> j \<le> LONG_MAX K \<longrightarrow> dle (range_term K A S j) B"
    proof (intro allI impI)
      fix j assume j: "0 \<le> j \<and> j \<le> LONG_MAX K"
      show "dle (range_term K A S j) B"
      proof (cases "j = 0")
        case True
        with ab t0 show ?thesis by simp
      next
        case False
        with j a show ?thesis by simp
      qed
    qed
  qed
  also have "\<dots> = (\<forall>j. 1 \<le> j \<and> j \<le> LONG_MAX K \<longrightarrow>
        \<not> (A = PInf \<and> dmul (double_of_real K) S (double_of_long K j) = NInf))"
    using term_nonpos_step [OF r ab s d] by blast
  also have "\<dots> = (\<not> (A = PInf \<and> (\<exists>j. 1 \<le> j \<and> j \<le> LONG_MAX K
                  \<and> dmul (double_of_real K) S (double_of_long K j) = NInf)))"
    by blast
  finally show ?thesis using range_float_run(1) [OF L, of A B S] by simp
qed

lemma rtlb_range_three:
  "isnum x \<Longrightarrow> isnum y \<Longrightarrow> isnum z \<Longrightarrow>
   rtlb_range K ret [x, y, z] ctx
     = map_option (\<lambda>rng. (0, SpnArray rng, ctx))
         (range_float_loop K (FLOATVAL K x) (FLOATVAL K y) (FLOATVAL K z) 0 (FLOATVAL K x) [])"
  by (simp add: rtlb_range_def)

lemma fl_not_NaN: "rounding K \<Longrightarrow> double_of_real K r \<noteq> NaN"
proof
  assume r: "rounding K" and n: "double_of_real K r = NaN"
  from r have "dle (double_of_real K r) (double_of_real K r)" unfolding rounding_def by blast
  with n show False by simp
qed

lemma fl_mono: "rounding K \<Longrightarrow> r \<le> s \<Longrightarrow> dle (double_of_real K r) (double_of_real K s)"
  unfolding rounding_def by blast

lemma dle_Fin0_le: "dle (Fin 0) x \<Longrightarrow> x = PInf \<or> (\<exists>q. x = Fin q \<and> 0 \<le> q)"
  by (cases x) simp_all

lemma failure_persists:
  "\<not> dle x B \<Longrightarrow> y = NaN \<or> (x \<noteq> NaN \<and> dle x y) \<Longrightarrow> \<not> dle y B"
  by (cases x; cases y; cases B) auto

lemma product_nonneg:
  assumes "rounding K" and "dle (Fin 0) S" and "1 \<le> c"
  shows "dmul (double_of_real K) S (Fin c) = PInf
         \<or> (\<exists>q. dmul (double_of_real K) S (Fin c) = Fin q \<and> 0 \<le> q)"
proof -
  from dle_Fin0_le [OF assms(2)] show ?thesis
  proof
    assume "S = PInf"
    with assms(3) show ?thesis by simp
  next
    assume "\<exists>s. S = Fin s \<and> 0 \<le> s"
    then obtain s where s: "S = Fin s" "0 \<le> s" by blast
    then have "0 \<le> s * c" using assms(3) by simp
    from fl_mono [OF assms(1) this] assms(1) have "dle (Fin 0) (double_of_real K (s * c))"
      by (simp add: rounding_def)
    from dle_Fin0_le [OF this] s(1) show ?thesis by simp
  qed
qed

lemma product_mono:
  assumes "rounding K" and "dle (Fin 0) S" and "1 \<le> c" and "c \<le> c'"
  shows "dle (dmul (double_of_real K) S (Fin c)) (dmul (double_of_real K) S (Fin c'))"
proof -
  from dle_Fin0_le [OF assms(2)] show ?thesis
  proof
    assume "S = PInf"
    with assms(3,4) show ?thesis by simp
  next
    assume "\<exists>s. S = Fin s \<and> 0 \<le> s"
    then obtain s where s: "S = Fin s" "0 \<le> s" by blast
    then have "s * c \<le> s * c'" using assms(4) by (simp add: mult_left_mono)
    from fl_mono [OF assms(1) this] s(1) show ?thesis by simp
  qed
qed

text \<open>
  With a step that is not negative the terms do not decrease: once a term fails the test
  of the loop, every later term fails it.
\<close>

lemma terms_nonneg_step:
  assumes r: "rounding K" and s: "dle (Fin 0) S" and d: "is_double K A"
      and ij: "0 \<le> i" "i \<le> j" "j \<le> LONG_MAX K"
      and f: "\<not> dle (range_term K A S i) B"
  shows "\<not> dle (range_term K A S j) B"
proof (cases "j = 0")
  case True
  with ij f show ?thesis by simp
next
  case False
  then have j1: "1 \<le> j" using ij by simp
  from counter_finite [OF r j1 ij(3)] obtain cj where cj: "double_of_long K j = Fin cj" "1 \<le> cj"
    by blast
  let ?pj = "dmul (double_of_real K) S (Fin cj)"
  have tj: "range_term K A S j = dadd (double_of_real K) A ?pj"
    using False cj(1) by (simp add: range_term_def)
  note pj = product_nonneg [OF r s cj(2)]
  show ?thesis
  proof (cases "i = 0")
    case True
    then have ti: "range_term K A S i = A" by (simp add: range_term_def)
    have "range_term K A S j = NaN \<or> (A \<noteq> NaN \<and> dle A (range_term K A S j))"
    proof (cases A)
      case NaN
      then show ?thesis using tj by simp
    next
      case PInf
      with pj tj show ?thesis by auto
    next
      case NInf
      with pj tj show ?thesis by auto
    next
      case (Fin a)
      from pj show ?thesis
      proof
        assume "?pj = PInf"
        with Fin tj show ?thesis by simp
      next
        assume "\<exists>q. ?pj = Fin q \<and> 0 \<le> q"
        then obtain q where q: "?pj = Fin q" "0 \<le> q" by blast
        then have "a \<le> a + q" by simp
        from fl_mono [OF r this] d Fin have "dle (Fin a) (double_of_real K (a + q))"
          by (simp add: is_double_def)
        with Fin tj q(1) show ?thesis by simp
      qed
    qed
    with f ti show ?thesis using failure_persists by metis
  next
    case i0: False
    then have i1: "1 \<le> i" using ij by simp
    have "i \<le> LONG_MAX K" using ij by simp
    from counter_finite [OF r i1 this] obtain ci where ci: "double_of_long K i = Fin ci" "1 \<le> ci"
      by blast
    let ?pi = "dmul (double_of_real K) S (Fin ci)"
    have ti: "range_term K A S i = dadd (double_of_real K) A ?pi"
      using i0 ci(1) by (simp add: range_term_def)
    have "(of_int i :: real) \<le> of_int j" using ij(2) by simp
    from fl_mono [OF r this] ci(1) cj(1) have cc: "ci \<le> cj" by (simp add: double_of_long_def)
    note pi = product_nonneg [OF r s ci(2)]
    note pm = product_mono [OF r s ci(2) cc]
    have "range_term K A S j = NaN
          \<or> (range_term K A S i \<noteq> NaN \<and> dle (range_term K A S i) (range_term K A S j))"
    proof (cases A)
      case NaN
      then show ?thesis using tj by simp
    next
      case PInf
      with pi pj ti tj show ?thesis by auto
    next
      case NInf
      from pj show ?thesis
      proof
        assume "?pj = PInf"
        with NInf tj show ?thesis by simp
      next
        assume "\<exists>q. ?pj = Fin q \<and> 0 \<le> q"
        then obtain q where q: "?pj = Fin q" by blast
        with pm pi obtain q' where "?pi = Fin q'" by auto
        with q NInf ti tj show ?thesis by simp
      qed
    next
      case (Fin a)
      from pj show ?thesis
      proof
        assume p: "?pj = PInf"
        have "range_term K A S i \<noteq> NaN"
          using pi ti Fin fl_not_NaN [OF r] by auto
        then have "dle (range_term K A S i) PInf" by (cases "range_term K A S i") simp_all
        with p Fin tj \<open>range_term K A S i \<noteq> NaN\<close> show ?thesis by simp
      next
        assume "\<exists>q. ?pj = Fin q \<and> 0 \<le> q"
        then obtain q where q: "?pj = Fin q" by blast
        with pm pi obtain q' where q': "?pi = Fin q'" "q' \<le> q" by auto
        then have "a + q' \<le> a + q" by simp
        from fl_mono [OF r this] fl_not_NaN [OF r, of "a + q'"] q q'(1) Fin ti tj
        show ?thesis by simp
      qed
    qed
    with f show ?thesis using failure_persists by metis
  qed
qed

lemma is_double_long: "rounding K \<Longrightarrow> is_double K (double_of_long K i)"
  unfolding rounding_def is_double_def double_of_long_def
  by (cases "double_of_real K (real_of_int i)") auto

lemma is_double_FLOATVAL:
  "rounding K \<Longrightarrow> (isfloat a \<longrightarrow> is_double K (floatvalue a)) \<Longrightarrow> isnum a \<Longrightarrow>
   is_double K (FLOATVAL K a)"
  by (auto simp: FLOATVAL_def isnum_def is_double_long)

lemma not_dle:
  "(\<not> dle x y) = (x = NaN \<or> y = NaN \<or> (dle y x \<and> x \<noteq> y))"
  by (cases x; cases y) auto

lemma rounding_K0: "rounding K0"
  by (simp add: rounding_def double_of_long_def)

text \<open>
  C8 (amended): \<open>range(n)\<close> returns the integers \<open>0, ..., n - 1\<close> and \<open>range(a, b)\<close> the
  integers \<open>a, ..., b - 1\<close>. For three numbers, with the terms \<open>t 0 = a\<close> and
  \<open>t i = a + step * i\<close> computed in the arithmetic of doubles: if \<open>t k\<close> is the first term that
  is not \<open><= b\<close> and \<open>k\<close> is at most \<open>LONG_MAX\<close>, \<open>range(a, b, step)\<close> returns the floats
  \<open>t 0, ..., t (k - 1)\<close>; whatever the call returns is of this form, so every element is
  \<open><= b\<close>; the empty array is returned when \<open>a <= b\<close> does not hold; and the call returns
  nothing exactly when every term up to the index \<open>LONG_MAX\<close> is \<open><= b\<close>. When the step is
  not negative (and the rounding is monotone and \<open>a\<close> is a double) no term after \<open>t k\<close> is
  \<open><= b\<close>: the array then holds every term that is \<open><= b\<close>, up to and including the last.
\<close>

theorem range_result:
  "rtlb_range K ret [SpnInt n] ctx = Some (0, SpnArray (map SpnInt [0..n - 1]), ctx)
   \<and> rtlb_range K ret [SpnInt a, SpnInt b] ctx = Some (0, SpnArray (map SpnInt [a..b - 1]), ctx)
   \<and> (isnum x \<and> isnum y \<and> isnum z \<and> 0 \<le> LONG_MAX K \<longrightarrow>
        (\<forall>k. 0 \<le> k \<and> k \<le> LONG_MAX K
              \<and> (\<forall>j. 0 \<le> j \<and> j < k \<longrightarrow>
                     dle (range_term K (FLOATVAL K x) (FLOATVAL K z) j) (FLOATVAL K y))
              \<and> \<not> dle (range_term K (FLOATVAL K x) (FLOATVAL K z) k) (FLOATVAL K y) \<longrightarrow>
            rtlb_range K ret [x, y, z] ctx
              = Some (0, SpnArray (map (\<lambda>j. SpnFloat (range_term K (FLOATVAL K x) (FLOATVAL K z) j))
                                      [0..k - 1]), ctx))
        \<and> (\<forall>st r c. rtlb_range K ret [x, y, z] ctx = Some (st, r, c) \<longrightarrow>
              (\<exists>k. 0 \<le> k \<and> k \<le> LONG_MAX K
                 \<and> (\<forall>j. 0 \<le> j \<and> j < k \<longrightarrow>
                        dle (range_term K (FLOATVAL K x) (FLOATVAL K z) j) (FLOATVAL K y))
                 \<and> \<not> dle (range_term K (FLOATVAL K x) (FLOATVAL K z) k) (FLOATVAL K y)
                 \<and> st = 0 \<and> c = ctx
                 \<and> r = SpnArray (map (\<lambda>j. SpnFloat (range_term K (FLOATVAL K x) (FLOATVAL K z) j))
                                     [0..k - 1])))
        \<and> (\<not> dle (FLOATVAL K x) (FLOATVAL K y) \<longrightarrow>
              rtlb_range K ret [x, y, z] ctx = Some (0, SpnArray [], ctx))
        \<and> ((rtlb_range K ret [x, y, z] ctx = None)
              = (\<forall>j. 0 \<le> j \<and> j \<le> LONG_MAX K \<longrightarrow>
                     dle (range_term K (FLOATVAL K x) (FLOATVAL K z) j) (FLOATVAL K y))))
   \<and> (rounding K \<and> isnum x \<and> (isfloat x \<longrightarrow> is_double K (floatvalue x))
        \<and> dle (Fin 0) (FLOATVAL K z) \<longrightarrow>
        (\<forall>i j. 0 \<le> i \<and> i \<le> j \<and> j \<le> LONG_MAX K
               \<and> \<not> dle (range_term K (FLOATVAL K x) (FLOATVAL K z) i) (FLOATVAL K y) \<longrightarrow>
               \<not> dle (range_term K (FLOATVAL K x) (FLOATVAL K z) j) (FLOATVAL K y)))"
proof -
  let ?A = "FLOATVAL K x" and ?B = "FLOATVAL K y" and ?S = "FLOATVAL K z"
  let ?T = "range_term K ?A ?S"
  have one: "rtlb_range K ret [SpnInt n] ctx = Some (0, SpnArray (map SpnInt [0..n - 1]), ctx)"
    by (simp add: rtlb_range_def range_loop_upto isnum_def)
  have two: "rtlb_range K ret [SpnInt a, SpnInt b] ctx
               = Some (0, SpnArray (map SpnInt [a..b - 1]), ctx)"
    by (simp add: rtlb_range_def range_loop_upto isnum_def)
  have three: "(\<forall>k. 0 \<le> k \<and> k \<le> LONG_MAX K
              \<and> (\<forall>j. 0 \<le> j \<and> j < k \<longrightarrow> dle (?T j) ?B) \<and> \<not> dle (?T k) ?B \<longrightarrow>
            rtlb_range K ret [x, y, z] ctx
              = Some (0, SpnArray (map (\<lambda>j. SpnFloat (?T j)) [0..k - 1]), ctx))
        \<and> (\<forall>st r c. rtlb_range K ret [x, y, z] ctx = Some (st, r, c) \<longrightarrow>
              (\<exists>k. 0 \<le> k \<and> k \<le> LONG_MAX K
                 \<and> (\<forall>j. 0 \<le> j \<and> j < k \<longrightarrow> dle (?T j) ?B) \<and> \<not> dle (?T k) ?B
                 \<and> st = 0 \<and> c = ctx
                 \<and> r = SpnArray (map (\<lambda>j. SpnFloat (?T j)) [0..k - 1])))
        \<and> (\<not> dle ?A ?B \<longrightarrow> rtlb_range K ret [x, y, z] ctx = Some (0, SpnArray [], ctx))
        \<and> ((rtlb_range K ret [x, y, z] ctx = None)
              = (\<forall>j. 0 \<le> j \<and> j \<le> LONG_MAX K \<longrightarrow> dle (?T j) ?B))"
    if num: "isnum x" "isnum y" "isnum z" and L: "0 \<le> LONG_MAX K"
  proof -
    note R = rtlb_range_three [OF num, of K ret ctx]
    have t0: "?T 0 = ?A" by (simp add: range_term_def)
    have a: "rtlb_range K ret [x, y, z] ctx
              = Some (0, SpnArray (map (\<lambda>j. SpnFloat (?T j)) [0..k - 1]), ctx)"
      if "0 \<le> k" "k \<le> LONG_MAX K" "\<forall>j. 0 \<le> j \<and> j < k \<longrightarrow> dle (?T j) ?B" "\<not> dle (?T k) ?B"
      for k
      using range_float_loop_returns [OF order_refl that, of "[]"] by (simp add: R t0)
    have b: "\<exists>k. 0 \<le> k \<and> k \<le> LONG_MAX K
                 \<and> (\<forall>j. 0 \<le> j \<and> j < k \<longrightarrow> dle (?T j) ?B) \<and> \<not> dle (?T k) ?B
                 \<and> st = 0 \<and> c = ctx
                 \<and> r = SpnArray (map (\<lambda>j. SpnFloat (?T j)) [0..k - 1])"
      if run: "rtlb_range K ret [x, y, z] ctx = Some (st, r, c)" for st r c
    proof -
      from run obtain rng where rng: "range_float_loop K ?A ?B ?S 0 ?A [] = Some rng"
        "st = 0" "r = SpnArray rng" "c = ctx"
        by (auto simp: R)
      from range_float_run(2) [OF L rng(1)] rng(2,3,4) show ?thesis by blast
    qed
    have c: "rtlb_range K ret [x, y, z] ctx = Some (0, SpnArray [], ctx)" if "\<not> dle ?A ?B"
    proof -
      have 1: "\<forall>j. 0 \<le> j \<and> j < (0::int) \<longrightarrow> dle (?T j) ?B" by auto
      have 2: "\<not> dle (?T 0) ?B" using that by (simp add: t0)
      from a [OF order_refl L 1 2] show ?thesis by simp
    qed
    have d: "(rtlb_range K ret [x, y, z] ctx = None)
              = (\<forall>j. 0 \<le> j \<and> j \<le> LONG_MAX K \<longrightarrow> dle (?T j) ?B)"
      using range_float_run(1) [OF L, of ?A ?B ?S] by (simp add: R)
    show ?thesis
    proof (intro conjI allI impI)
      fix k
      assume "0 \<le> k \<and> k \<le> LONG_MAX K \<and> (\<forall>j. 0 \<le> j \<and> j < k \<longrightarrow> dle (?T j) ?B) \<and> \<not> dle (?T k) ?B"
      then show "rtlb_range K ret [x, y, z] ctx
              = Some (0, SpnArray (map (\<lambda>j. SpnFloat (?T j)) [0..k - 1]), ctx)"
        using a [of k] by blast
    next
      fix st r c
      assume "rtlb_range K ret [x, y, z] ctx = Some (st, r, c)"
      then show "\<exists>k. 0 \<le> k \<and> k \<le> LONG_MAX K
                 \<and> (\<forall>j. 0 \<le> j \<and> j < k \<longrightarrow> dle (?T j) ?B) \<and> \<not> dle (?T k) ?B
                 \<and> st = 0 \<and> c = ctx
                 \<and> r = SpnArray (map (\<lambda>j. SpnFloat (?T j)) [0..k - 1])"
        by (rule b)
    next
      assume "\<not> dle ?A ?B"
      then show "rtlb_range K ret [x, y, z] ctx = Some (0, SpnArray [], ctx)" by (rule c)
    next
      show "(rtlb_range K ret [x, y, z] ctx = None)
              = (\<forall>j. 0 \<le> j \<and> j \<le> LONG_MAX K \<longrightarrow> dle (?T j) ?B)" by (rule d)
    qed
  qed
  have four: "\<forall>i j. 0 \<le> i \<and> i \<le> j \<and> j \<le> LONG_MAX K \<and> \<not> dle (?T i) ?B \<longrightarrow> \<not> dle (?T j) ?B"
    if r: "rounding K" and num: "isnum x" and dx: "isfloat x \<longrightarrow> is_double K (floatvalue x)"
      and s: "dle (Fin 0) ?S"
  proof (intro allI impI)
    fix i j
    assume h: "0 \<le> i \<and> i \<le> j \<and> j \<le> LONG_MAX K \<and> \<not> dle (?T i) ?B"
    note d = is_double_FLOATVAL [OF r dx num]
    from terms_nonneg_step [OF r s d h [THEN conjunct1] h [THEN conjunct2, THEN conjunct1]
        h [THEN conjunct2, THEN conjunct2, THEN conjunct1]
        h [THEN conjunct2, THEN conjunct2, THEN conjunct2]]
    show "\<not> dle (?T j) ?B" .
  qed
  show ?thesis
  proof (intro conjI)
    show "rtlb_range K ret [SpnInt n] ctx = Some (0, SpnArray (map SpnInt [0..n - 1]), ctx)"
      by (rule one)
    show "rtlb_range K ret [SpnInt a, SpnInt b] ctx
               = Some (0, SpnArray (map SpnInt [a..b - 1]), ctx)" by (rule two)
    show "isnum x \<and> isnum y \<and> isnum z \<and> 0 \<le> LONG_MAX K \<longrightarrow>
        (\<forall>k. 0 \<le> k \<and> k \<le> LONG_MAX K
              \<and> (\<forall>j. 0 \<le> j \<and> j < k \<longrightarrow> dle (?T j) ?B) \<and> \<not> dle (?T k) ?B \<longrightarrow>
            rtlb_range K ret [x, y, z] ctx
              = Some (0, SpnArray (map (\<lambda>j. SpnFloat (?T j)) [0..k - 1]), ctx))
        \<and> (\<forall>st r c. rtlb_range K ret [x, y, z] ctx = Some (st, r, c) \<longrightarrow>
              (\<exists>k. 0 \<le> k \<and> k \<le> LONG_MAX K
                 \<and> (\<forall>j. 0 \<le> j \<and> j < k \<longrightarrow> dle (?T j) ?B) \<and> \<not> dle (?T k) ?B
                 \<and> st = 0 \<and> c = ctx
                 \<and> r = SpnArray (map (\<lambda>j. SpnFloat (?T j)) [0..k - 1])))
        \<and> (\<not> dle ?A ?B \<longrightarrow> rtlb_range K ret [x, y, z] ctx = Some (0, SpnArray [], ctx))
        \<and> ((rtlb_range K ret [x, y, z] ctx = None)
              = (\<forall>j. 0 \<le> j \<and> j \<le> LONG_MAX K \<longrightarrow> dle (?T j) ?B))"
    proof
      assume h: "isnum x \<and> isnum y \<and> isnum z \<and> 0 \<le> LONG_MAX K"
      show "(\<forall>k. 0 \<le> k \<and> k \<le> LONG_MAX K
              \<and> (\<forall>j. 0 \<le> j \<and> j < k \<longrightarrow> dle (?T j) ?B) \<and> \<not> dle (?T k) ?B \<longrightarrow>
            rtlb_range K ret [x, y, z] ctx
              = Some (0, SpnArray (map (\<lambda>j. SpnFloat (?T j)) [0..k - 1]), ctx))
        \<and> (\<forall>st r c. rtlb_range K ret [x, y, z] ctx = Some (st, r, c) \<longrightarrow>
              (\<exists>k. 0 \<le> k \<and> k \<le> LONG_MAX K
                 \<and> (\<forall>j. 0 \<le> j \<and> j < k \<longrightarrow> dle (?T j) ?B) \<and> \<not> dle (?T k) ?B
                 \<and> st = 0 \<and> c = ctx
                 \<and> r = SpnArray (map (\<lambda>j. SpnFloat (?T j)) [0..k - 1])))
        \<and> (\<not> dle ?A ?B \<longrightarrow> rtlb_range K ret [x, y, z] ctx = Some (0, SpnArray [], ctx))
        \<and> ((rtlb_range K ret [x, y, z] ctx = None)
              = (\<forall>j. 0 \<le> j \<and> j \<le> LONG_MAX K \<longrightarrow> dle (?T j) ?B))"
        by (rule three [OF h [THEN conjunct1] h [THEN conjunct2, THEN conjunct1]
              h [THEN conjunct2, THEN conjunct2, THEN conjunct1]
              h [THEN conjunct2, THEN conjunct2, THEN conjunct2]])
    qed
    show "rounding K \<and> isnum x \<and> (isfloat x \<longrightarrow> is_double K (floatvalue x)) \<and> dle (Fin 0) ?S \<longrightarrow>
        (\<forall>i j. 0 \<le> i \<and> i \<le> j \<and> j \<le> LONG_MAX K \<and> \<not> dle (?T i) ?B \<longrightarrow> \<not> dle (?T j) ?B)"
    proof
      assume h: "rounding K \<and> isnum x \<and> (isfloat x \<longrightarrow> is_double K (floatvalue x)) \<and> dle (Fin 0) ?S"
      show "\<forall>i j. 0 \<le> i \<and> i \<le> j \<and> j \<le> LONG_MAX K \<and> \<not> dle (?T i) ?B \<longrightarrow> \<not> dle (?T j) ?B"
        by (rule four [OF h [THEN conjunct1] h [THEN conjunct2, THEN conjunct1]
              h [THEN conjunct2, THEN conjunct2, THEN conjunct1]
              h [THEN conjunct2, THEN conjunct2, THEN conjunct2]])
    qed
  qed
qed

theorem range_result_witness:
  "rtlb_range K0 SpnNil [SpnInt 3] ctx0 = Some (0, SpnArray [SpnInt 0, SpnInt 1, SpnInt 2], ctx0)
   \<and> rtlb_range K0 SpnNil [SpnInt 2, SpnInt 5] ctx0
       = Some (0, SpnArray [SpnInt 2, SpnInt 3, SpnInt 4], ctx0)
   \<and> rtlb_range K0 SpnNil [SpnInt 0, SpnInt 1, SpnFloat (Fin (1 / 2))] ctx0
       = Some (0, SpnArray [SpnFloat (Fin 0), SpnFloat (Fin (1 / 2)), SpnFloat (Fin 1)], ctx0)
   \<and> rtlb_range K0 SpnNil [SpnInt 5, SpnInt 1, SpnInt (- 1)] ctx0 = Some (0, SpnArray [], ctx0)
   \<and> rounding K0
   \<and> \<not> dle (range_term K0 (Fin 0) (Fin (1 / 2)) 3) (Fin 1)
   \<and> \<not> dle (range_term K0 (Fin 0) (Fin (1 / 2)) 10) (Fin 1)"
proof -
  let ?x = "SpnInt 0" and ?y = "SpnInt 1" and ?z = "SpnFloat (Fin (1 / 2))"
  have i1: "[0..(2::int)] = [0, 1, 2]" and i2: "[2..(4::int)] = [2, 3, 4]"
    by (simp_all add: upto_rec1)
  have F: "FLOATVAL K0 ?x = Fin 0" "FLOATVAL K0 ?y = Fin 1" "FLOATVAL K0 ?z = Fin (1 / 2)"
    "FLOATVAL K0 (SpnInt 5) = Fin 5" "FLOATVAL K0 (SpnInt (- 1)) = Fin (- 1)"
    by (simp_all add: FLOATVAL_def double_of_long_def)
  have T: "range_term K0 (Fin 0) (Fin (1 / 2)) j = Fin (of_int j / 2)" for j
    by (simp add: range_term_def double_of_long_def)
  note a = range_result [where K = K0 and ret = SpnNil and ctx = ctx0 and n = 3 and a = 2 and b = 5
      and x = ?x and y = ?y and z = ?z]
  note b = range_result [where K = K0 and ret = SpnNil and ctx = ctx0
      and x = "SpnInt 5" and y = "SpnInt 1" and z = "SpnInt (- 1)"]
  have 1: "rtlb_range K0 SpnNil [SpnInt 3] ctx0 = Some (0, SpnArray [SpnInt 0, SpnInt 1, SpnInt 2], ctx0)"
    using a [THEN conjunct1] i1 by simp
  have 2: "rtlb_range K0 SpnNil [SpnInt 2, SpnInt 5] ctx0
       = Some (0, SpnArray [SpnInt 2, SpnInt 3, SpnInt 4], ctx0)"
    using a [THEN conjunct2, THEN conjunct1] i2 by simp
  have num: "isnum ?x \<and> isnum ?y \<and> isnum ?z \<and> 0 \<le> LONG_MAX K0" by (simp add: isnum_def)
  have h3: "0 \<le> (3::int) \<and> 3 \<le> LONG_MAX K0
      \<and> (\<forall>j. 0 \<le> j \<and> j < 3 \<longrightarrow>
             dle (range_term K0 (FLOATVAL K0 ?x) (FLOATVAL K0 ?z) j) (FLOATVAL K0 ?y))
      \<and> \<not> dle (range_term K0 (FLOATVAL K0 ?x) (FLOATVAL K0 ?z) 3) (FLOATVAL K0 ?y)"
    unfolding F T by auto
  from a [THEN conjunct2, THEN conjunct2, THEN conjunct1, rule_format, OF num,
      THEN conjunct1, rule_format, OF h3]
  have 3: "rtlb_range K0 SpnNil [?x, ?y, ?z] ctx0
       = Some (0, SpnArray [SpnFloat (Fin 0), SpnFloat (Fin (1 / 2)), SpnFloat (Fin 1)], ctx0)"
    unfolding F T by (simp add: i1)
  have num5: "isnum (SpnInt 5) \<and> isnum (SpnInt 1) \<and> isnum (SpnInt (- 1)) \<and> 0 \<le> LONG_MAX K0"
    by (simp add: isnum_def)
  have h4: "\<not> dle (FLOATVAL K0 (SpnInt 5)) (FLOATVAL K0 (SpnInt 1))" by (simp add: F)
  from b [THEN conjunct2, THEN conjunct2, THEN conjunct1, rule_format, OF num5,
      THEN conjunct2, THEN conjunct2, THEN conjunct1, rule_format, OF h4]
  have 4: "rtlb_range K0 SpnNil [SpnInt 5, SpnInt 1, SpnInt (- 1)] ctx0 = Some (0, SpnArray [], ctx0)" .
  have h5: "rounding K0 \<and> isnum ?x \<and> (isfloat ?x \<longrightarrow> is_double K0 (floatvalue ?x))
      \<and> dle (Fin 0) (FLOATVAL K0 ?z)"
    using rounding_K0 by (simp add: isnum_def F)
  have t3: "\<not> dle (range_term K0 (Fin 0) (Fin (1 / 2)) 3) (Fin 1)" unfolding T by simp
  have h6: "0 \<le> (3::int) \<and> 3 \<le> (10::int) \<and> 10 \<le> LONG_MAX K0
      \<and> \<not> dle (range_term K0 (FLOATVAL K0 ?x) (FLOATVAL K0 ?z) 3) (FLOATVAL K0 ?y)"
    unfolding F T by simp
  from a [THEN conjunct2, THEN conjunct2, THEN conjunct2, rule_format, OF h5, rule_format, OF h6]
  have 5: "\<not> dle (range_term K0 (Fin 0) (Fin (1 / 2)) 10) (Fin 1)" unfolding F .
  from 1 2 3 4 rounding_K0 t3 5 show ?thesis by (intro conjI)
qed

text \<open>
  The claim as stated fails: \<open>range(0, 1, 0)\<close> does not return, since every term is 0; and
  \<open>range(5, 1, -1)\<close> returns the empty array although the terms \<open>1, 0, -1, ...\<close> of its
  sequence are at most \<open>b\<close>.
\<close>

theorem range_counterexample:
  "rtlb_range K0 SpnNil [SpnInt 0, SpnInt 1, SpnInt 0] ctx0 = None
   \<and> rtlb_range K0 SpnNil [SpnInt 5, SpnInt 1, SpnInt (- 1)] ctx0 = Some (0, SpnArray [], ctx0)
   \<and> dle (range_term K0 (Fin 5) (Fin (- 1)) 4) (Fin 1)"
proof -
  have T: "range_term K0 (Fin 0) (Fin 0) j = Fin 0" for j
    by (simp add: range_term_def double_of_long_def)
  have "range_float_loop K0 (Fin 0) (Fin 1) (Fin 0) 0 (Fin 0) [] = None"
    using range_float_run(1) [of K0 "Fin 0" "Fin 1" "Fin 0"] by (simp add: T)
  moreover have "range_float_loop K0 (Fin 5) (Fin 1) (Fin (- 1)) 0 (Fin 5) [] = Some []"
    by (subst range_float_loop.simps) simp
  moreover have "dle (range_term K0 (Fin 5) (Fin (- 1)) 4) (Fin 1)"
    by (simp add: range_term_def double_of_long_def)
  ultimately show ?thesis
    by (simp add: rtlb_range_three isnum_def FLOATVAL_def double_of_long_def)
qed

text \<open>
  C10 (amended): \<open>range(a, b, step)\<close> does not look at the step before it loops: for three
  numbers it returns status 0 with an array, or it does not return. With a rounding that
  is monotone and an \<open>a\<close> that is a double: when \<open>a <= b\<close> and \<open>step <= 0\<close> (zero and minus
  infinity included) the call does not return, with one exception: \<open>a\<close> is plus infinity and
  the product \<open>step * i\<close> is minus infinity for some counter \<open>i\<close> from 1 to \<open>LONG_MAX\<close> (the
  step is minus infinity, or its multiple overflows); the term is then a NaN and the loop
  ends. So the call returns only when the step is positive or a NaN, or \<open>a\<close> or \<open>b\<close> is a
  NaN, or \<open>a > b\<close>, or in the case of the exception.
\<close>

theorem range_step_unchecked:
  assumes "rounding K" and "isnum a" and "isnum b" and "isnum step"
      and "isfloat a \<longrightarrow> is_double K (floatvalue a)"
  shows "(rtlb_range K ret [a, b, step] ctx = None
          \<or> (\<exists>rng. rtlb_range K ret [a, b, step] ctx = Some (0, SpnArray rng, ctx)))
         \<and> (dle (FLOATVAL K a) (FLOATVAL K b) \<and> dle (FLOATVAL K step) (Fin 0) \<longrightarrow>
              (rtlb_range K ret [a, b, step] ctx = None)
                = (\<not> (FLOATVAL K a = PInf
                       \<and> (\<exists>j. 1 \<le> j \<and> j \<le> LONG_MAX K
                              \<and> dmul (double_of_real K) (FLOATVAL K step) (double_of_long K j)
                                  = NInf))))
         \<and> (rtlb_range K ret [a, b, step] ctx \<noteq> None \<longrightarrow>
              FLOATVAL K step = PInf \<or> (\<exists>s. FLOATVAL K step = Fin s \<and> 0 < s)
              \<or> FLOATVAL K step = NaN \<or> FLOATVAL K a = NaN \<or> FLOATVAL K b = NaN
              \<or> (dle (FLOATVAL K b) (FLOATVAL K a) \<and> FLOATVAL K a \<noteq> FLOATVAL K b)
              \<or> (FLOATVAL K a = PInf
                  \<and> (\<exists>j. 1 \<le> j \<and> j \<le> LONG_MAX K
                         \<and> dmul (double_of_real K) (FLOATVAL K step) (double_of_long K j)
                             = NInf)))"
proof -
  let ?A = "FLOATVAL K a" and ?B = "FLOATVAL K b" and ?S = "FLOATVAL K step"
  let ?E = "?A = PInf \<and> (\<exists>j. 1 \<le> j \<and> j \<le> LONG_MAX K
                \<and> dmul (double_of_real K) ?S (double_of_long K j) = NInf)"
  note R = rtlb_range_three [OF assms(2,3,4), of K ret ctx]
  note d = is_double_FLOATVAL [OF assms(1,5,2)]
  have 1: "rtlb_range K ret [a, b, step] ctx = None
          \<or> (\<exists>rng. rtlb_range K ret [a, b, step] ctx = Some (0, SpnArray rng, ctx))"
    by (cases "range_float_loop K ?A ?B ?S 0 ?A []") (simp_all add: R)
  have 2: "(rtlb_range K ret [a, b, step] ctx = None) = (\<not> ?E)"
    if "dle ?A ?B" "dle ?S (Fin 0)"
    using range_nonpos_step [OF assms(1) that d] by (simp add: R)
  have 3: "?S = PInf \<or> (\<exists>s. ?S = Fin s \<and> 0 < s) \<or> ?S = NaN \<or> ?A = NaN \<or> ?B = NaN
              \<or> (dle ?B ?A \<and> ?A \<noteq> ?B) \<or> ?E"
    if ret: "rtlb_range K ret [a, b, step] ctx \<noteq> None"
  proof (cases "dle ?A ?B")
    case False
    then show ?thesis using not_dle [of ?A ?B] by blast
  next
    case ab: True
    show ?thesis
    proof (cases "dle ?S (Fin 0)")
      case True
      from 2 [OF ab True] ret show ?thesis by blast
    next
      case False
      then have "?S = NaN \<or> ?S = PInf \<or> (\<exists>s. ?S = Fin s \<and> 0 < s)"
        by (cases ?S) auto
      then show ?thesis by blast
    qed
  qed
  show ?thesis
  proof (intro conjI impI)
    show "rtlb_range K ret [a, b, step] ctx = None
          \<or> (\<exists>rng. rtlb_range K ret [a, b, step] ctx = Some (0, SpnArray rng, ctx))" by (rule 1)
  next
    assume h: "dle ?A ?B \<and> dle ?S (Fin 0)"
    show "(rtlb_range K ret [a, b, step] ctx = None) = (\<not> ?E)"
      by (rule 2 [OF h [THEN conjunct1] h [THEN conjunct2]])
  next
    assume "rtlb_range K ret [a, b, step] ctx \<noteq> None"
    then show "?S = PInf \<or> (\<exists>s. ?S = Fin s \<and> 0 < s) \<or> ?S = NaN \<or> ?A = NaN \<or> ?B = NaN
              \<or> (dle ?B ?A \<and> ?A \<noteq> ?B) \<or> ?E" by (rule 3)
  qed
qed

theorem range_step_unchecked_witness:
  "rounding K0
   \<and> rtlb_range K0 SpnNil [SpnInt 0, SpnInt 1, SpnInt 0] ctx0 = None
   \<and> rtlb_range K0 SpnNil [SpnInt 0, SpnFloat (Fin 1), SpnFloat NInf] ctx0 = None
   \<and> rtlb_range K0 SpnNil [SpnFloat PInf, SpnFloat PInf, SpnInt 0] ctx0 = None
   \<and> rtlb_range K0 SpnNil [SpnFloat PInf, SpnFloat PInf, SpnInt (- 1)] ctx0 = None
   \<and> rtlb_range K0 SpnNil [SpnFloat NaN, SpnFloat (Fin 1), SpnFloat NInf] ctx0
       = Some (0, SpnArray [], ctx0)"
proof -
  have F: "FLOATVAL K0 (SpnInt i) = Fin (of_int i)" "FLOATVAL K0 (SpnFloat d) = d" for i d
    by (simp_all add: FLOATVAL_def double_of_long_def)
  have L: "double_of_long K0 j = Fin (of_int j)" for j by (simp add: double_of_long_def)
  have n: "isnum (SpnInt i)" "isnum (SpnFloat d)" for i d by (simp_all add: isnum_def)
  have n0: "isnum (SpnInt 0)" "isnum (SpnInt 1)" "isnum (SpnInt (- 1))"
    "isnum (SpnFloat (Fin 1))" "isnum (SpnFloat NInf)" "isnum (SpnFloat PInf)"
    by (simp_all add: isnum_def)
  have d0: "isfloat (SpnInt 0) \<longrightarrow> is_double K0 (floatvalue (SpnInt 0))"
    and dP: "isfloat (SpnFloat PInf) \<longrightarrow> is_double K0 (floatvalue (SpnFloat PInf))"
    by (simp_all add: is_double_def)
  have 1: "rtlb_range K0 SpnNil [SpnInt 0, SpnInt 1, SpnInt 0] ctx0 = None"
    using range_step_unchecked [OF rounding_K0 n0(1) n0(2) n0(1) d0, of SpnNil ctx0]
    by (simp add: F)
  have 2: "rtlb_range K0 SpnNil [SpnInt 0, SpnFloat (Fin 1), SpnFloat NInf] ctx0 = None"
    using range_step_unchecked [OF rounding_K0 n0(1) n0(4) n0(5) d0, of SpnNil ctx0]
    by (simp add: F)
  have 3: "rtlb_range K0 SpnNil [SpnFloat PInf, SpnFloat PInf, SpnInt 0] ctx0 = None"
    using range_step_unchecked [OF rounding_K0 n0(6) n0(6) n0(1) dP, of SpnNil ctx0]
    by (simp add: F L)
  have 4: "rtlb_range K0 SpnNil [SpnFloat PInf, SpnFloat PInf, SpnInt (- 1)] ctx0 = None"
    using range_step_unchecked [OF rounding_K0 n0(6) n0(6) n0(3) dP, of SpnNil ctx0]
    by (simp add: F L)
  have 5: "rtlb_range K0 SpnNil [SpnFloat NaN, SpnFloat (Fin 1), SpnFloat NInf] ctx0
       = Some (0, SpnArray [], ctx0)"
    by (simp add: rtlb_range_three n F) (subst range_float_loop.simps, simp)
  from rounding_K0 1 2 3 4 5 show ?thesis by (intro conjI)
qed

text \<open>
  The claim as stated fails at plus infinity: with \<open>a = b = +\<infinity>\<close> and \<open>step = -\<infinity>\<close> we have
  \<open>a <= b\<close> and \<open>step <= 0\<close>, and the second term is \<open>\<infinity> + (-\<infinity>)\<close>, a NaN, which ends the
  loop: the call returns the array of the one element \<open>+\<infinity>\<close>.
\<close>

theorem range_step_counterexample:
  "dle PInf PInf \<and> dle NInf (Fin 0)
   \<and> rtlb_range K0 SpnNil [SpnFloat PInf, SpnFloat PInf, SpnFloat NInf] ctx0
       = Some (0, SpnArray [SpnFloat PInf], ctx0)"
proof -
  have "range_float_loop K0 PInf PInf NInf 0 PInf [] = Some [SpnFloat PInf]"
    by (subst range_float_loop.simps, simp add: double_of_long_def)
       (subst range_float_loop.simps, simp)
  then show ?thesis by (simp add: rtlb_range_three isnum_def FLOATVAL_def)
qed

section \<open>compile and exprtofn\<close>

lemma loadstring_failure_category:
  "spn_ctx_loadstring K ctx str = (None, ctx1) \<Longrightarrow>
     (errtype ctx1 = SPN_ERROR_SYNTAX \<and> fst (spn_parser_parse K (parser ctx) str) = None
        \<and> parser ctx1 = snd (spn_parser_parse K (parser ctx) str))
     \<or> (errtype ctx1 = SPN_ERROR_SEMANTIC
        \<and> (\<exists>t. fst (spn_parser_parse K (parser ctx) str) = Some t
               \<and> fst (spn_compiler_compile K (cmp ctx) t) = None
               \<and> cmp ctx1 = snd (spn_compiler_compile K (cmp ctx) t)))"
  by (auto simp: loadstring_cases split: prod.splits option.splits)

text \<open>
  C9: provided each failing component supplies a message (the parser and the compiler
  when they reject their input, and \<open>spn_ctx_compile_expr\<close> when it returns \<open>NULL\<close>),
  \<open>compile\<close> and \<open>exprtofn\<close> always return; their status is nonzero exactly when the
  argument count is not one or the argument is not a string, and then the result slot is
  unchanged. On a string whose parsing or compilation fails they return status 0 with the
  message of the failing component as a string, and the error category of the context
  reads \<open>Ok\<close> afterwards; on a string that loads they return the function.
\<close>

theorem compile_reports_by_value:
  assumes pm: "\<forall>p s p'. spn_parser_parse K p s = (None, p') \<longrightarrow> parser_errmsg K p' \<noteq> None"
      and cm: "\<forall>c t c'. spn_compiler_compile K c t = (None, c') \<longrightarrow> spn_compiler_errmsg K c' \<noteq> None"
      and em: "\<forall>c s c'. spn_ctx_compile_expr K c s = (None, c') \<longrightarrow> spn_ctx_geterrmsg K c' \<noteq> None"
  shows "(\<exists>st r c. rtlb_compile K ret argv ctx = Some (st, r, c)
            \<and> (st \<noteq> 0) = (length argv \<noteq> 1 \<or> \<not> isstring (argv ! 0))
            \<and> (st \<noteq> 0 \<longrightarrow> r = ret)
            \<and> (st = 0 \<longrightarrow>
                 (case spn_ctx_loadstring K ctx (cstr (stringvalue (argv ! 0))) of
                    (None, ctx1) \<Rightarrow>
                      spn_ctx_geterrmsg K ctx1 = Some (stringvalue r) \<and> isstring r
                      \<and> (errtype ctx1 = SPN_ERROR_SYNTAX \<or> errtype ctx1 = SPN_ERROR_SEMANTIC)
                      \<and> c = spn_ctx_clearerror ctx1 \<and> spn_ctx_geterrtype c = SPN_ERROR_OK
                  | (Some fn, ctx1) \<Rightarrow> r = SpnFunc (Script fn) \<and> c = ctx1)))
         \<and> (\<exists>st r c. rtlb_exprtofn K ret argv ctx = Some (st, r, c)
            \<and> (st \<noteq> 0) = (length argv \<noteq> 1 \<or> \<not> isstring (argv ! 0))
            \<and> (st \<noteq> 0 \<longrightarrow> r = ret)
            \<and> (st = 0 \<longrightarrow>
                 (case spn_ctx_compile_expr K ctx (cstr (stringvalue (argv ! 0))) of
                    (None, ctx1) \<Rightarrow>
                      spn_ctx_geterrmsg K ctx1 = Some (stringvalue r) \<and> isstring r
                      \<and> c = spn_ctx_clearerror ctx1 \<and> spn_ctx_geterrtype c = SPN_ERROR_OK
                  | (Some fn, ctx1) \<Rightarrow> r = SpnFunc (Script fn) \<and> c = ctx1)))"
proof -
  have msg: "spn_ctx_geterrmsg K ctx1 \<noteq> None
      \<and> (errtype ctx1 = SPN_ERROR_SYNTAX \<or> errtype ctx1 = SPN_ERROR_SEMANTIC)"
    if "spn_ctx_loadstring K ctx s = (None, ctx1)" for s ctx1
  proof -
    from loadstring_failure_category [OF that] show ?thesis
    proof
      assume a: "errtype ctx1 = SPN_ERROR_SYNTAX \<and> fst (spn_parser_parse K (parser ctx) s) = None
        \<and> parser ctx1 = snd (spn_parser_parse K (parser ctx) s)"
      then have "spn_parser_parse K (parser ctx) s = (None, parser ctx1)"
        by (metis prod.collapse)
      from pm [rule_format, OF this] a show ?thesis by (simp add: spn_ctx_geterrmsg_def)
    next
      assume "errtype ctx1 = SPN_ERROR_SEMANTIC
        \<and> (\<exists>t. fst (spn_parser_parse K (parser ctx) s) = Some t
               \<and> fst (spn_compiler_compile K (cmp ctx) t) = None
               \<and> cmp ctx1 = snd (spn_compiler_compile K (cmp ctx) t))"
      then obtain t where a: "errtype ctx1 = SPN_ERROR_SEMANTIC"
        "fst (spn_compiler_compile K (cmp ctx) t) = None"
        "cmp ctx1 = snd (spn_compiler_compile K (cmp ctx) t)" by blast
      then have "spn_compiler_compile K (cmp ctx) t = (None, cmp ctx1)"
        by (metis prod.collapse)
      from cm [rule_format, OF this] a(1) show ?thesis by (simp add: spn_ctx_geterrmsg_def)
    qed
  qed
  have 1: "\<exists>st r c. rtlb_compile K ret argv ctx = Some (st, r, c)
            \<and> (st \<noteq> 0) = (length argv \<noteq> 1 \<or> \<not> isstring (argv ! 0))
            \<and> (st \<noteq> 0 \<longrightarrow> r = ret)
            \<and> (st = 0 \<longrightarrow>
                 (case spn_ctx_loadstring K ctx (cstr (stringvalue (argv ! 0))) of
                    (None, ctx1) \<Rightarrow>
                      spn_ctx_geterrmsg K ctx1 = Some (stringvalue r) \<and> isstring r
                      \<and> (errtype ctx1 = SPN_ERROR_SYNTAX \<or> errtype ctx1 = SPN_ERROR_SEMANTIC)
                      \<and> c = spn_ctx_clearerror ctx1 \<and> spn_ctx_geterrtype c = SPN_ERROR_OK
                  | (Some fn, ctx1) \<Rightarrow> r = SpnFunc (Script fn) \<and> c = ctx1))"
  proof (cases "length argv \<noteq> 1 \<or> \<not> isstring (argv ! 0)")
    case True
    then show ?thesis by (auto simp: rtlb_compile_def)
  next
    case False
    obtain fn ctx1 where l: "spn_ctx_loadstring K ctx (cstr (stringvalue (argv ! 0))) = (fn, ctx1)"
      by (cases "spn_ctx_loadstring K ctx (cstr (stringvalue (argv ! 0)))")
    show ?thesis
    proof (cases fn)
      case None
      with l msg obtain m where "spn_ctx_geterrmsg K ctx1 = Some m"
        and "errtype ctx1 = SPN_ERROR_SYNTAX \<or> errtype ctx1 = SPN_ERROR_SEMANTIC" by blast
      with False l None show ?thesis
        by (simp add: rtlb_compile_def spn_ctx_clearerror_def spn_ctx_geterrtype_def)
    next
      case (Some w)
      with False l show ?thesis by (simp add: rtlb_compile_def)
    qed
  qed
  have 2: "\<exists>st r c. rtlb_exprtofn K ret argv ctx = Some (st, r, c)
            \<and> (st \<noteq> 0) = (length argv \<noteq> 1 \<or> \<not> isstring (argv ! 0))
            \<and> (st \<noteq> 0 \<longrightarrow> r = ret)
            \<and> (st = 0 \<longrightarrow>
                 (case spn_ctx_compile_expr K ctx (cstr (stringvalue (argv ! 0))) of
                    (None, ctx1) \<Rightarrow>
                      spn_ctx_geterrmsg K ctx1 = Some (stringvalue r) \<and> isstring r
                      \<and> c = spn_ctx_clearerror ctx1 \<and> spn_ctx_geterrtype c = SPN_ERROR_OK
                  | (Some fn, ctx1) \<Rightarrow> r = SpnFunc (Script fn) \<and> c = ctx1))"
  proof (cases "length argv \<noteq> 1 \<or> \<not> isstring (argv ! 0)")
    case True
    then show ?thesis by (auto simp: rtlb_exprtofn_def)
  next
    case False
    obtain fn ctx1 where l: "spn_ctx_compile_expr K ctx (cstr (stringvalue (argv ! 0))) = (fn, ctx1)"
      by (cases "spn_ctx_compile_expr K ctx (cstr (stringvalue (argv ! 0)))")
    show ?thesis
    proof (cases fn)
      case None
      with l em obtain m where "spn_ctx_geterrmsg K ctx1 = Some m" by fastforce
      with False l None show ?thesis
        by (simp add: rtlb_exprtofn_def spn_ctx_clearerror_def spn_ctx_geterrtype_def)
    next
      case (Some w)
      with False l show ?thesis by (simp add: rtlb_exprtofn_def)
    qed
  qed
  from 1 2 show ?thesis by (rule conjI)
qed

theorem compile_reports_by_value_witness:
  "rtlb_compile K0 SpnNil [SpnString ''@@@''] ctx0
     = Some (0, SpnString ''syntax error'', ctx0\<lparr>parser := Some ''syntax error''\<rparr>)
   \<and> spn_ctx_geterrtype (ctx0\<lparr>parser := Some ''syntax error''\<rparr>) = SPN_ERROR_OK
   \<and> rtlb_exprtofn K0 SpnNil [SpnString []] ctx0
     = Some (0, SpnString ''expected expression'', ctx0\<lparr>parser := Some ''expected expression''\<rparr>)
   \<and> rtlb_compile K0 SpnNil [SpnInt 1] ctx0
     = Some (- 2, SpnNil, spn_ctx_runtime_error K0 ctx0 ''argument must be a string'' [])"
proof -
  have pm: "\<forall>p s p'. spn_parser_parse K0 p s = (None, p') \<longrightarrow> parser_errmsg K0 p' \<noteq> None"
    by (auto split: if_splits)
  have cm: "\<forall>c t c'. spn_compiler_compile K0 c t = (None, c') \<longrightarrow> spn_compiler_errmsg K0 c' \<noteq> None"
    by (auto split: if_splits)
  have em: "\<forall>c s c'. spn_ctx_compile_expr K0 c s = (None, c') \<longrightarrow> spn_ctx_geterrmsg K0 c' \<noteq> None"
    by (auto simp: spn_ctx_geterrmsg_def split: if_splits)
  note t1 = compile_reports_by_value [OF pm cm em, where ret = SpnNil and argv = "[SpnString ''@@@'']" and ctx = ctx0]
  note t2 = compile_reports_by_value [OF pm cm em, where ret = SpnNil and argv = "[SpnString []]" and ctx = ctx0]
  note t3 = compile_reports_by_value [OF pm cm em, where ret = SpnNil and argv = "[SpnInt 1]" and ctx = ctx0]
  have l: "spn_ctx_loadstring K0 ctx0 ''@@@''
             = (None, ctx0\<lparr>parser := Some ''syntax error'', errtype := SPN_ERROR_SYNTAX\<rparr>)"
    by (simp add: loadstring_cases)
  have c: "cstr ''@@@'' = ''@@@''" "cstr [] = []" by (simp_all add: cstr_def NUL_def)
  have 1: "rtlb_compile K0 SpnNil [SpnString ''@@@''] ctx0
     = Some (0, SpnString ''syntax error'', ctx0\<lparr>parser := Some ''syntax error''\<rparr>)"
    using t1 l c
    by (auto simp: spn_ctx_geterrmsg_def spn_ctx_clearerror_def ctx0_def
             elim!: isstring.elims)
  have 2: "spn_ctx_geterrtype (ctx0\<lparr>parser := Some ''syntax error''\<rparr>) = SPN_ERROR_OK"
    by (simp add: spn_ctx_geterrtype_def ctx0_def)
  have 3: "rtlb_exprtofn K0 SpnNil [SpnString []] ctx0
     = Some (0, SpnString ''expected expression'', ctx0\<lparr>parser := Some ''expected expression''\<rparr>)"
    using t2 c
    by (auto simp: spn_ctx_geterrmsg_def spn_ctx_clearerror_def ctx0_def
             elim!: isstring.elims)
  have 4: "rtlb_compile K0 SpnNil [SpnInt 1] ctx0
     = Some (- 2, SpnNil, spn_ctx_runtime_error K0 ctx0 ''argument must be a string'' [])"
    using t3 by (simp add: rtlb_compile_def)
  from 1 2 3 4 show ?thesis by blast
qed

section \<open>The result slot on the error path\<close>




section \<open>sort\<close>

lemma partition_loop_step:
  "partition_loop K compf pivot right i store_idx a ctx =
     (if i < right then
        (case cmp_step K compf (a ! nat i) pivot ctx of
           Inl c \<Rightarrow> (True, 0, a, c)
         | Inr (lt, c) \<Rightarrow>
             partition_loop K compf pivot right (i + 1) (if lt then store_idx + 1 else store_idx)
               (if lt then rtlb_aux_swap a i store_idx else a) c)
      else (False, store_idx, a, ctx))"
  by (subst partition_loop.simps)
     (simp add: cmp_step_def Let_def split: option.splits prod.splits)

lemma swap_length [simp]: "length (rtlb_aux_swap a i j) = length a"
  by (simp add: rtlb_aux_swap_def)

lemma swap_nth:
  "k < length a \<Longrightarrow>
   rtlb_aux_swap a i j ! k = (if k = nat j then a ! nat i else if k = nat i then a ! nat j else a ! k)"
  by (simp add: rtlb_aux_swap_def nth_list_update)

lemma swap_set:
  "0 \<le> i \<Longrightarrow> 0 \<le> j \<Longrightarrow> nat i < length a \<Longrightarrow> nat j < length a \<Longrightarrow>
   set (rtlb_aux_swap a i j) = set a"
  unfolding rtlb_aux_swap_def
  by (metis set_swap)

text \<open>
  The loop without a comparator stops with the error flag exactly when one of the elements
  it has still to visit is not comparable with the pivot, and the message then names the
  types of that element and of the pivot.
\<close>

lemma partition_loop_uncomparable:
  assumes "0 \<le> store_idx" and "store_idx \<le> i" and "right \<le> int (length a)"
  shows "(\<exists>k. i \<le> k \<and> k < right \<and> \<not> spn_values_comparable (a ! nat k) pivot) \<Longrightarrow>
         \<exists>a1 k. i \<le> k \<and> k < right \<and> \<not> spn_values_comparable (a ! nat k) pivot \<and>
           partition_loop K None pivot right i store_idx a ctx =
             (True, 0, a1,
              spn_ctx_runtime_error K ctx ''attempt to sort uncomparable values of type %s and %s''
                [CStr (spn_type_name K (a ! nat k)), CStr (spn_type_name K pivot)])"
  using assms
proof (induction "nat (right - i)" arbitrary: i store_idx a)
  case 0
  then show ?case by auto
next
  case (Suc n)
  from Suc.prems(1) obtain k where k: "i \<le> k" "k < right"
    "\<not> spn_values_comparable (a ! nat k) pivot" by blast
  then have lt: "i < right" by simp
  show ?case
  proof (cases "spn_values_comparable (a ! nat i) pivot")
    case False
    then have "partition_loop K None pivot right i store_idx a ctx =
             (True, 0, a,
              spn_ctx_runtime_error K ctx ''attempt to sort uncomparable values of type %s and %s''
                [CStr (spn_type_name K (a ! nat i)), CStr (spn_type_name K pivot)])"
      using lt by (subst partition_loop_step) (simp add: cmp_step_def)
    with False lt show ?thesis by (intro exI [of _ a] exI [of _ i]) simp
  next
    case True
    with k have ki: "i + 1 \<le> k" by (cases "k = i") auto
    let ?lt = "spn_value_compare (a ! nat i) pivot < 0"
    let ?s = "if ?lt then store_idx + 1 else store_idx"
    let ?a = "if ?lt then rtlb_aux_swap a i store_idx else a"
    have run: "partition_loop K None pivot right i store_idx a ctx
                 = partition_loop K None pivot right (i + 1) ?s ?a ctx"
      using lt True by (subst partition_loop_step) (simp add: cmp_step_def)
    have same: "?a ! nat m = a ! nat m" if "i + 1 \<le> m" "m < right" for m
    proof -
      have "0 \<le> m" "m < int (length a)" using that Suc.prems(2,3,4) by linarith+
      then have "nat m < length a" by (simp add: nat_less_iff)
      moreover have "nat m \<noteq> nat i" "nat m \<noteq> nat store_idx"
        using that Suc.prems(2,3) by linarith+
      ultimately show ?thesis by (simp add: swap_nth)
    qed
    have n: "n = nat (right - (i + 1))" using Suc.hyps(2) by linarith
    have ex: "\<exists>m. i + 1 \<le> m \<and> m < right \<and> \<not> spn_values_comparable (?a ! nat m) pivot"
      using k ki same [of k] by (intro exI [of _ k]) simp
    have "0 \<le> ?s" "?s \<le> i + 1" "right \<le> int (length ?a)"
      using Suc.prems by auto
    from Suc.hyps(1) [OF n ex this]
    obtain a1 m where m: "i + 1 \<le> m" "m < right" "\<not> spn_values_comparable (?a ! nat m) pivot"
      "partition_loop K None pivot right (i + 1) ?s ?a ctx =
             (True, 0, a1,
              spn_ctx_runtime_error K ctx ''attempt to sort uncomparable values of type %s and %s''
                [CStr (spn_type_name K (?a ! nat m)), CStr (spn_type_name K pivot)])"
      by blast
    from same [OF m(1) m(2)] m run show ?thesis
      by (intro exI [of _ a1] exI [of _ m]) simp
  qed
qed

lemma comparable_sym: "spn_values_comparable a b = spn_values_comparable b a"
  by (auto simp: spn_values_comparable_def)

lemma comparable_trans:
  "spn_values_comparable a b \<Longrightarrow> spn_values_comparable b c \<Longrightarrow> spn_values_comparable a c"
  by (cases b) (auto simp: spn_values_comparable_def isnum_def)


lemma sort_uncomparable:
  assumes ij: "i < j" "j < length a" and nc: "\<not> spn_values_comparable (a ! i) (a ! j)"
  shows "\<exists>x y a1. x \<in> set a \<and> y \<in> set a \<and> \<not> spn_values_comparable x y \<and>
           rtlb_sort K ret [SpnArray a] ctx =
             (- 1, ret, [SpnArray a1],
              spn_ctx_runtime_error K ctx ''attempt to sort uncomparable values of type %s and %s''
                [CStr (spn_type_name K x), CStr (spn_type_name K y)])"
proof -
  let ?right = "int (length a) - 1"
  let ?p = "0 + (?right - 0) div 2"
  let ?pivot = "a ! nat ?p"
  let ?a0 = "rtlb_aux_swap a ?p ?right"
  have len: "2 \<le> length a" using ij by simp
  have p: "0 \<le> ?p" "nat ?p < length a" using len by auto
  have r: "0 \<le> ?right" "nat ?right < length a" "0 < ?right" using len by auto
  have set0: "set ?a0 = set a" using swap_set [OF p(1) r(1) p(2) r(2)] .
  have right0: "?a0 ! nat ?right = ?pivot" using r(2) by (simp add: swap_nth)
  have pin: "?pivot \<in> set a" using p(2) by simp
  have ex: "\<exists>k. 0 \<le> k \<and> k < ?right \<and> \<not> spn_values_comparable (?a0 ! nat k) ?pivot"
  proof (rule ccontr)
    assume "\<not> ?thesis"
    then have all: "spn_values_comparable (?a0 ! nat k) ?pivot" if "0 \<le> k" "k < ?right" for k
      using that by blast
    from all [of 0] r(3) have c0: "spn_values_comparable (?a0 ! 0) ?pivot" by simp
    then have pp: "spn_values_comparable ?pivot ?pivot"
      using comparable_sym comparable_trans by blast
    have every: "spn_values_comparable x ?pivot" if "x \<in> set a" for x
    proof -
      from that set0 obtain m where m: "m < length ?a0" "?a0 ! m = x"
        by (metis in_set_conv_nth)
      show ?thesis
      proof (cases "int m < ?right")
        case True
        with all [of "int m"] m(2) show ?thesis by simp
      next
        case False
        with m(1) have "m = nat ?right" by simp
        with right0 m(2) pp show ?thesis by simp
      qed
    qed
    have "a ! i \<in> set a" "a ! j \<in> set a" using ij by simp_all
    then have "spn_values_comparable (a ! i) ?pivot" "spn_values_comparable ?pivot (a ! j)"
      using every comparable_sym by blast+
    then have "spn_values_comparable (a ! i) (a ! j)" by (rule comparable_trans)
    with nc show False by simp
  qed
  have "(0::int) \<le> 0" "?right \<le> int (length ?a0)" by simp_all
  from partition_loop_uncomparable [OF this(1) this(1) this(2) ex, of K ctx]
  obtain a1 k where k: "0 \<le> k" "k < ?right" "\<not> spn_values_comparable (?a0 ! nat k) ?pivot"
    "partition_loop K None ?pivot ?right 0 0 ?a0 ctx =
       (True, 0, a1,
        spn_ctx_runtime_error K ctx ''attempt to sort uncomparable values of type %s and %s''
          [CStr (spn_type_name K (?a0 ! nat k)), CStr (spn_type_name K ?pivot)])"
    by blast
  have "nat k < length ?a0" using k(1,2) by simp
  then have kin: "?a0 ! nat k \<in> set a" using set0 nth_mem by blast
  have part: "rtlb_aux_partition K None 0 ?right a ctx =
       (True, 0, a1,
        spn_ctx_runtime_error K ctx ''attempt to sort uncomparable values of type %s and %s''
          [CStr (spn_type_name K (?a0 ! nat k)), CStr (spn_type_name K ?pivot)])"
    using k(4) by (simp add: rtlb_aux_partition_def Let_def)
  have "rtlb_aux_qsort K None 0 ?right a ctx =
       (- 1, a1,
        spn_ctx_runtime_error K ctx ''attempt to sort uncomparable values of type %s and %s''
          [CStr (spn_type_name K (?a0 ! nat k)), CStr (spn_type_name K ?pivot)])"
    using r(3) part by (subst rtlb_aux_qsort.simps) simp
  then have "rtlb_sort K ret [SpnArray a] ctx =
       (- 1, ret, [SpnArray a1],
        spn_ctx_runtime_error K ctx ''attempt to sort uncomparable values of type %s and %s''
          [CStr (spn_type_name K (?a0 ! nat k)), CStr (spn_type_name K ?pivot)])"
    by (simp add: rtlb_sort_def)
  with kin pin k(3) show ?thesis by blast
qed

lemma unlog_with_log [simp]: "unlog (with_log ctx l) = ctx"
  by (cases ctx) (simp add: unlog_def with_log_def)

lemma calls_with_log [simp]: "calls (with_log ctx l) = l"
  by (simp add: calls_def with_log_def)

lemma with_log_unlog [simp]: "with_log (unlog ctx) (calls ctx) = ctx"
  by (cases ctx) (simp add: unlog_def with_log_def calls_def)

lemma callfunc_logged:
  "spn_ctx_callfunc (logged K) ctx f ret args =
     (case spn_ctx_callfunc K (unlog ctx) f ret args of
        (st, r, ctx1) \<Rightarrow> (st, r, with_log ctx1 (calls ctx @ [(args, st, r)])))"
  by (cases ctx)
     (auto simp: spn_ctx_callfunc_def logged_def unlog_def with_log_def calls_def Let_def
           split: prod.splits)

lemma runtime_error_logged:
  "spn_ctx_runtime_error (logged K) ctx fmt args =
     with_log (spn_ctx_runtime_error K (unlog ctx) fmt args) (calls ctx)"
  by (cases ctx)
     (simp add: spn_ctx_runtime_error_def logged_def unlog_def with_log_def calls_def)

lemma type_name_logged [simp]: "spn_type_name (logged K) = spn_type_name K"
  by (simp add: logged_def)

text \<open>What one comparison under \<open>logged K\<close> does to the context and to the record.\<close>

lemma cmp_step_logged_Some:
  "cmp_step (logged K) (Some f) x pivot ctx =
     (case spn_ctx_callfunc K (unlog ctx) f SpnNil [x, pivot] of
        (st, r, ctx1) \<Rightarrow>
          if st \<noteq> 0 then Inl (with_log ctx1 (calls ctx @ [([x, pivot], st, r)]))
          else if \<not> isbool r then
            Inl (with_log
                   (spn_ctx_runtime_error K ctx1 ''comparator function must return a Boolean'' [])
                   (calls ctx @ [([x, pivot], st, r)]))
          else Inr (boolvalue r, with_log ctx1 (calls ctx @ [([x, pivot], st, r)])))"
  by (simp add: cmp_step_def callfunc_logged runtime_error_logged split: prod.splits)

lemma cmp_step_logged_None:
  "cmp_step (logged K) None x pivot ctx =
     (case cmp_step K None x pivot (unlog ctx) of
        Inl c \<Rightarrow> Inl (with_log c (calls ctx))
      | Inr (b, c) \<Rightarrow> Inr (b, with_log c (calls ctx)))"
  by (simp add: cmp_step_def runtime_error_logged)

lemma cmp_step_unlog:
  "cmp_step K compf x pivot (unlog ctx) =
     (case cmp_step (logged K) compf x pivot ctx of
        Inl c \<Rightarrow> Inl (unlog c)
      | Inr (b, c) \<Rightarrow> Inr (b, unlog c))"
proof (cases compf)
  case None
  then show ?thesis
    by (simp add: cmp_step_logged_None split: sum.splits prod.splits)
next
  case (Some f)
  then show ?thesis
    by (simp add: cmp_step_logged_Some) (simp add: cmp_step_def split: prod.splits)
qed

text \<open>The record does not change the run: forgetting it gives the run under \<open>K\<close>.\<close>

lemma partition_loop_unlog:
  "partition_loop (logged K) compf pivot right i store_idx a ctx = (e, p, a1, c1) \<Longrightarrow>
   partition_loop K compf pivot right i store_idx a (unlog ctx) = (e, p, a1, unlog c1)"
proof (induction "nat (right - i)" arbitrary: i store_idx a ctx)
  case 0
  then have "\<not> i < right" by simp
  with "0.prems" show ?case
    by (subst partition_loop_step) (simp add: partition_loop_step [of "logged K"])
next
  case (Suc n)
  then have lt: "i < right" by simp
  have n: "n = nat (right - (i + 1))" using Suc.hyps(2) by linarith
  show ?case
  proof (cases "cmp_step (logged K) compf (a ! nat i) pivot ctx")
    case (Inl c)
    with Suc.prems lt show ?thesis
      by (subst partition_loop_step)
         (simp add: partition_loop_step [of "logged K" compf pivot right i] cmp_step_unlog)
  next
    case (Inr bc)
    obtain b c where bc: "bc = (b, c)" by (cases bc)
    from Suc.prems lt Inr bc
    have "partition_loop (logged K) compf pivot right (i + 1)
            (if b then store_idx + 1 else store_idx)
            (if b then rtlb_aux_swap a i store_idx else a) c = (e, p, a1, c1)"
      by (simp add: partition_loop_step [of "logged K" compf pivot right i])
    from Suc.hyps(1) [OF n this] lt Inr bc show ?thesis
      by (subst partition_loop_step) (simp add: cmp_step_unlog)
  qed
qed

lemma rtlb_aux_partition_unlog:
  "rtlb_aux_partition (logged K) compf left right a ctx = (e, p, a1, c1) \<Longrightarrow>
   rtlb_aux_partition K compf left right a (unlog ctx) = (e, p, a1, unlog c1)"
  unfolding rtlb_aux_partition_def Let_def
  by (auto split: prod.splits if_splits dest!: partition_loop_unlog)

lemma rtlb_aux_qsort_unlog:
  "rtlb_aux_qsort (logged K) compf left right a ctx = (st, a1, c1) \<Longrightarrow>
   rtlb_aux_qsort K compf left right a (unlog ctx) = (st, a1, unlog c1)"
proof (induction "logged K" compf left right a ctx arbitrary: st a1 c1
       rule: rtlb_aux_qsort.induct)
  case (1 compf left right a ctx)
  show ?case
  proof (cases "left \<ge> right")
    case True
    with "1.prems" show ?thesis
      by (simp add: rtlb_aux_qsort.simps [of _ compf left right])
  next
    case False
    obtain e p b cb where part: "rtlb_aux_partition (logged K) compf left right a ctx = (e, p, b, cb)"
      by (cases "rtlb_aux_partition (logged K) compf left right a ctx") auto
    note part' = rtlb_aux_partition_unlog [OF part]
    show ?thesis
    proof (cases e)
      case True
      with "1.prems" False part part' show ?thesis
        by (simp add: rtlb_aux_qsort.simps [of _ compf left right])
    next
      case ne: False
      obtain s2 a2 c2 where q1: "rtlb_aux_qsort (logged K) compf left (p - 1) b cb = (s2, a2, c2)"
        by (cases "rtlb_aux_qsort (logged K) compf left (p - 1) b cb") auto
      note q1' = "1.hyps"(1) [OF False part [symmetric] refl refl ne q1]
      show ?thesis
      proof (cases "s2 \<noteq> 0")
        case True
        with "1.prems" False part part' ne q1 q1' show ?thesis
          by (simp add: rtlb_aux_qsort.simps [of _ compf left right])
      next
        case ok: False
        obtain s3 a3 c3 where q2: "rtlb_aux_qsort (logged K) compf (p + 1) right a2 c2 = (s3, a3, c3)"
          by (cases "rtlb_aux_qsort (logged K) compf (p + 1) right a2 c2") auto
        note q2' = "1.hyps"(2) [OF False part [symmetric] refl refl ne q1 [symmetric] refl ok q2]
        from "1.prems" False part part' ne q1 q1' ok q2 q2' show ?thesis
          by (simp add: rtlb_aux_qsort.simps [of _ compf left right] split: if_splits)
      qed
    qed
  qed
qed

lemma aborted_prepend:
  "aborted K f new c1 \<Longrightarrow> list_all good_call pre \<Longrightarrow> aborted K f (pre @ new) c1"
  unfolding aborted_def by (simp add: butlast_append)

lemma partition_loop_calls:
  "partition_loop (logged K) (Some f) pivot right i store_idx a ctx = (e, p, a1, c1) \<Longrightarrow>
   \<exists>new. calls c1 = calls ctx @ new \<and> length a1 = length a
     \<and> (\<not> e \<longrightarrow> list_all good_call new) \<and> (e \<longrightarrow> aborted K f new c1)"
proof (induction "nat (right - i)" arbitrary: i store_idx a ctx)
  case 0
  then have "\<not> i < right" by simp
  with "0.prems" show ?case
    by (simp add: partition_loop_step [of "logged K" _ pivot right i])
next
  case (Suc n)
  then have lt: "i < right" by simp
  have n: "n = nat (right - (i + 1))" using Suc.hyps(2) by linarith
  obtain st r v where vcall:
    "spn_vm_callfunc K (vm (unlog ctx)) f SpnNil [a ! nat i, pivot] = (st, r, v)"
    by (cases "spn_vm_callfunc K (vm (unlog ctx)) f SpnNil [a ! nat i, pivot]") auto
  define c' where "c' = (if st \<noteq> 0
      then (unlog ctx)\<lparr>errtype := SPN_ERROR_OK, vm := v, errtype := SPN_ERROR_RUNTIME\<rparr>
      else (unlog ctx)\<lparr>errtype := SPN_ERROR_OK, vm := v\<rparr>)"
  have call: "spn_ctx_callfunc K (unlog ctx) f SpnNil [a ! nat i, pivot] = (st, r, c')"
    using vcall by (simp add: spn_ctx_callfunc_def c'_def)
  have c'vm: "vm c' = v" by (simp add: c'_def)
  have c'ty: "errtype c' = (if st \<noteq> 0 then SPN_ERROR_RUNTIME else SPN_ERROR_OK)"
    by (simp add: c'_def)
  let ?entry = "([a ! nat i, pivot], st, r)"
  let ?l = "calls ctx @ [?entry]"
  show ?case
  proof (cases "st \<noteq> 0")
    case True
    with Suc.prems lt call have res: "e" "a1 = a" "c1 = with_log c' ?l"
      by (auto simp: partition_loop_step [of "logged K" _ pivot right i] cmp_step_logged_Some)
    have "errtype c1 = SPN_ERROR_RUNTIME" "fst (vm c1) = v"
      using res(3) c'vm c'ty True by (simp_all add: with_log_def)
    with vcall True have "aborted K f [?entry] c1"
      unfolding aborted_def good_call_def by auto
    with res show ?thesis by (intro exI [of _ "[?entry]"]) simp
  next
    case st0: False
    show ?thesis
    proof (cases "isbool r")
      case False
      with Suc.prems lt call st0 have res: "e" "a1 = a"
        "c1 = with_log (spn_ctx_runtime_error K c' ''comparator function must return a Boolean'' []) ?l"
        by (auto simp: partition_loop_step [of "logged K" _ pivot right i] cmp_step_logged_Some)
      have "errtype c1 = SPN_ERROR_OK"
        "fst (vm c1) = spn_vm_seterrmsg K v ''comparator function must return a Boolean'' []"
        using res(3) c'vm c'ty st0 by (simp_all add: with_log_def spn_ctx_runtime_error_def)
      with vcall st0 False have "aborted K f [?entry] c1"
        unfolding aborted_def good_call_def by auto
      with res show ?thesis by (intro exI [of _ "[?entry]"]) simp
    next
      case True
      let ?b = "boolvalue r"
      from Suc.prems lt call st0 True
      have "partition_loop (logged K) (Some f) pivot right (i + 1)
              (if ?b then store_idx + 1 else store_idx)
              (if ?b then rtlb_aux_swap a i store_idx else a) (with_log c' ?l) = (e, p, a1, c1)"
        by (simp add: partition_loop_step [of "logged K" _ pivot right i] cmp_step_logged_Some)
      from Suc.hyps(1) [OF n this]
      obtain new where new: "calls c1 = ?l @ new"
        "length a1 = length (if ?b then rtlb_aux_swap a i store_idx else a)"
        "\<not> e \<longrightarrow> list_all good_call new" "e \<longrightarrow> aborted K f new c1"
        by auto
      from new(2) have la: "length a1 = length a" by (simp split: if_splits)
      have g: "good_call ?entry" using st0 True by (simp add: good_call_def)
      have "e \<longrightarrow> aborted K f (?entry # new) c1"
        using new(4) g aborted_prepend [of K f new c1 "[?entry]"] by simp
      with new(1,3) la g show ?thesis by (intro exI [of _ "?entry # new"]) simp
    qed
  qed
qed

lemma rtlb_aux_partition_calls:
  "rtlb_aux_partition (logged K) (Some f) left right a ctx = (e, p, a1, c1) \<Longrightarrow>
   \<exists>new. calls c1 = calls ctx @ new \<and> length a1 = length a
     \<and> (\<not> e \<longrightarrow> list_all good_call new) \<and> (e \<longrightarrow> aborted K f new c1)"
proof -
  assume run: "rtlb_aux_partition (logged K) (Some f) left right a ctx = (e, p, a1, c1)"
  let ?pi = "left + (right - left) div 2"
  obtain e' p' b cb where loop:
    "partition_loop (logged K) (Some f) (a ! nat ?pi) right left left
       (rtlb_aux_swap a ?pi right) ctx = (e', p', b, cb)"
    by (cases "partition_loop (logged K) (Some f) (a ! nat ?pi) right left left
       (rtlb_aux_swap a ?pi right) ctx") auto
  from partition_loop_calls [OF loop]
  obtain new where new: "calls cb = calls ctx @ new" "length b = length a"
    "\<not> e' \<longrightarrow> list_all good_call new" "e' \<longrightarrow> aborted K f new cb"
    by auto
  from run loop have "e = e'" "c1 = cb" "length a1 = length b"
    by (auto simp: rtlb_aux_partition_def Let_def split: if_splits)
  with new show ?thesis by auto
qed

lemma rtlb_aux_qsort_calls:
  "rtlb_aux_qsort (logged K) (Some f) left right a ctx = (st, a1, c1) \<Longrightarrow>
   \<exists>new. calls c1 = calls ctx @ new \<and> length a1 = length a \<and> (st = 0 \<or> st = - 1)
     \<and> (st = 0 \<longrightarrow> list_all good_call new) \<and> (st \<noteq> 0 \<longrightarrow> aborted K f new c1)"
proof (induction "logged K" "Some f :: SpnValue option" left right a ctx arbitrary: st a1 c1
       rule: rtlb_aux_qsort.induct)
  case (1 left right a ctx)
  show ?case
  proof (cases "left \<ge> right")
    case True
    with "1.prems" show ?thesis
      by (simp add: rtlb_aux_qsort.simps [of _ _ left right])
  next
    case False
    obtain e p b cb where part:
      "rtlb_aux_partition (logged K) (Some f) left right a ctx = (e, p, b, cb)"
      by (cases "rtlb_aux_partition (logged K) (Some f) left right a ctx") auto
    from rtlb_aux_partition_calls [OF part]
    obtain n1 where n1: "calls cb = calls ctx @ n1" "length b = length a"
      "\<not> e \<longrightarrow> list_all good_call n1" "e \<longrightarrow> aborted K f n1 cb"
      by auto
    show ?thesis
    proof (cases e)
      case True
      with "1.prems" False part have "st = - 1" "a1 = b" "c1 = cb"
        by (auto simp: rtlb_aux_qsort.simps [of _ _ left right])
      with n1 True show ?thesis by auto
    next
      case ne: False
      obtain s2 a2 c2 where q1:
        "rtlb_aux_qsort (logged K) (Some f) left (p - 1) b cb = (s2, a2, c2)"
        by (cases "rtlb_aux_qsort (logged K) (Some f) left (p - 1) b cb") auto
      from "1.hyps"(1) [OF False part [symmetric] refl refl ne q1]
      obtain n2 where n2: "calls c2 = calls cb @ n2" "length a2 = length b" "s2 = 0 \<or> s2 = - 1"
        "s2 = 0 \<longrightarrow> list_all good_call n2" "s2 \<noteq> 0 \<longrightarrow> aborted K f n2 c2"
        by auto
      show ?thesis
      proof (cases "s2 \<noteq> 0")
        case True
        with "1.prems" False part ne q1 have "st = - 1" "a1 = a2" "c1 = c2"
          by (auto simp: rtlb_aux_qsort.simps [of _ _ left right])
        moreover have "aborted K f (n1 @ n2) c2"
          using True n2(5) n1(3) ne by (simp add: aborted_prepend)
        ultimately show ?thesis using n1 n2 by (intro exI [of _ "n1 @ n2"]) simp
      next
        case ok: False
        obtain s3 a3 c3 where q2:
          "rtlb_aux_qsort (logged K) (Some f) (p + 1) right a2 c2 = (s3, a3, c3)"
          by (cases "rtlb_aux_qsort (logged K) (Some f) (p + 1) right a2 c2") auto
        from "1.hyps"(2) [OF False part [symmetric] refl refl ne q1 [symmetric] refl ok q2]
        obtain n3 where n3: "calls c3 = calls c2 @ n3" "length a3 = length a2"
          "s3 = 0 \<or> s3 = - 1" "s3 = 0 \<longrightarrow> list_all good_call n3" "s3 \<noteq> 0 \<longrightarrow> aborted K f n3 c3"
          by auto
        from "1.prems" False part ne q1 ok q2
        have res: "st = (if s3 \<noteq> 0 then - 1 else 0)" "a1 = a3" "c1 = c3"
          by (auto simp: rtlb_aux_qsort.simps [of _ _ left right] split: if_splits)
        have g12: "list_all good_call (n1 @ n2)" using n1(3) ne n2(4) ok by simp
        have "s3 \<noteq> 0 \<longrightarrow> aborted K f ((n1 @ n2) @ n3) c3"
          using n3(5) g12 aborted_prepend by blast
        with res n1 n2 n3 g12 show ?thesis
          by (intro exI [of _ "n1 @ n2 @ n3"]) auto
      qed
    qed
  qed
qed

lemma cmp_step_answers:
  assumes "answers K f lt A" and "x \<in> A" and "y \<in> A"
  shows "\<exists>c. cmp_step K (Some f) x y ctx = Inr (lt x y, c)"
proof -
  from assms obtain v' where
    "spn_vm_callfunc K (vm (ctx\<lparr>errtype := SPN_ERROR_OK\<rparr>)) f SpnNil [x, y]
       = (0, SpnBool (lt x y), v')"
    unfolding answers_def by blast
  then show ?thesis
    by (simp add: cmp_step_def spn_ctx_callfunc_def Let_def)
qed

lemma swap_mset:
  "0 \<le> i \<Longrightarrow> 0 \<le> j \<Longrightarrow> nat i < length a \<Longrightarrow> nat j < length a \<Longrightarrow>
   mset (rtlb_aux_swap a i j) = mset a"
  unfolding rtlb_aux_swap_def by (simp add: mset_swap)

lemma partition_loop_answers:
  assumes "answers K f lt (set a)" and "pivot \<in> set a"
      and "0 \<le> s" and "s \<le> i" and "i \<le> right" and "right \<le> int (length a)"
      and "\<forall>k::nat. s \<le> int k \<and> int k < i \<longrightarrow> \<not> lt (a ! k) pivot"
  shows "\<exists>p a1 c1. partition_loop K (Some f) pivot right i s a ctx = (False, p, a1, c1)
         \<and> s \<le> p \<and> p \<le> right \<and> mset a1 = mset a
         \<and> (\<forall>k::nat. int k < s \<or> right \<le> int k \<longrightarrow> a1 ! k = a ! k)
         \<and> (\<forall>k::nat. s \<le> int k \<and> int k < right \<longrightarrow>
               (\<exists>k'::nat. s \<le> int k' \<and> int k' < right \<and> a1 ! k = a ! k'))
         \<and> (\<forall>k::nat. s \<le> int k \<and> int k < p \<longrightarrow> lt (a1 ! k) pivot)
         \<and> (\<forall>k::nat. p \<le> int k \<and> int k < right \<longrightarrow> \<not> lt (a1 ! k) pivot)"
  using assms
proof (induction "nat (right - i)" arbitrary: i s a ctx)
  case 0
  then have "i = right" by simp
  with "0.prems" show ?case
    by (auto simp: partition_loop_step [of K _ pivot right right])
next
  case (Suc n)
  then have lt: "i < right" by simp
  have n: "n = nat (right - (i + 1))" using Suc.hyps(2) by linarith
  note pre = Suc.prems(7)
  have ilen: "nat i < length a" "nat s < length a" "nat s \<le> nat i" "0 \<le> i"
    using Suc.prems(3-6) lt by auto
  then have "a ! nat i \<in> set a" by simp
  from cmp_step_answers [OF Suc.prems(1) this Suc.prems(2), of ctx]
  obtain c where c: "cmp_step K (Some f) (a ! nat i) pivot ctx = Inr (lt (a ! nat i) pivot, c)"
    by blast
  show ?case
  proof (cases "lt (a ! nat i) pivot")
    case True
    let ?a = "rtlb_aux_swap a i s"
    have step: "partition_loop K (Some f) pivot right i s a ctx
                  = partition_loop K (Some f) pivot right (i + 1) (s + 1) ?a c"
      using lt c True by (simp add: partition_loop_step [of K _ pivot right i])
    have ms: "mset ?a = mset a" using ilen Suc.prems(3) by (simp add: swap_mset)
    then have seta: "set ?a = set a" by (rule mset_eq_setD)
    have nth: "?a ! k = (if k = nat s then a ! nat i else if k = nat i then a ! nat s else a ! k)"
      if "k < length a" for k
      using that by (simp add: swap_nth)
    have pre': "\<forall>k::nat. s + 1 \<le> int k \<and> int k < i + 1 \<longrightarrow> \<not> lt (?a ! k) pivot"
    proof (intro allI impI)
      fix k :: nat assume k: "s + 1 \<le> int k \<and> int k < i + 1"
      then have kl: "k < length a" "k \<noteq> nat s" using lt Suc.prems(3,6) by auto
      show "\<not> lt (?a ! k) pivot"
      proof (cases "k = nat i")
        case True
        then have "?a ! k = a ! nat s" using kl by (simp add: nth)
        moreover have "\<not> lt (a ! nat s) pivot"
          using pre [rule_format, of "nat s"] k Suc.prems(3) by auto
        ultimately show ?thesis by simp
      next
        case False
        then have "?a ! k = a ! k" using kl by (simp add: nth)
        moreover have "int k < i" using k False ilen(4) by arith
        then have "\<not> lt (a ! k) pivot"
          using pre [rule_format, of k] k by auto
        ultimately show ?thesis by simp
      qed
    qed
    have "answers K f lt (set ?a)" "pivot \<in> set ?a"
      "0 \<le> s + 1" "s + 1 \<le> i + 1" "i + 1 \<le> right" "right \<le> int (length ?a)"
      using Suc.prems(1-6) lt seta by auto
    from Suc.hyps(1) [OF n this pre', of c]
    obtain p a1 c1 where ih:
      "partition_loop K (Some f) pivot right (i + 1) (s + 1) ?a c = (False, p, a1, c1)"
      "s + 1 \<le> p" "p \<le> right" "mset a1 = mset ?a"
      "\<forall>k::nat. int k < s + 1 \<or> right \<le> int k \<longrightarrow> a1 ! k = ?a ! k"
      "\<forall>k::nat. s + 1 \<le> int k \<and> int k < right \<longrightarrow>
               (\<exists>k'::nat. s + 1 \<le> int k' \<and> int k' < right \<and> a1 ! k = ?a ! k')"
      "\<forall>k::nat. s + 1 \<le> int k \<and> int k < p \<longrightarrow> lt (a1 ! k) pivot"
      "\<forall>k::nat. p \<le> int k \<and> int k < right \<longrightarrow> \<not> lt (a1 ! k) pivot"
      by blast
    have frame: "\<forall>k::nat. int k < s \<or> right \<le> int k \<longrightarrow> a1 ! k = a ! k"
    proof (intro allI impI)
      fix k :: nat assume k: "int k < s \<or> right \<le> int k"
      then have "a1 ! k = ?a ! k" using ih(5) by auto
      also have "?a ! k = a ! k"
        using k lt Suc.prems(3-5)
        by (auto simp: rtlb_aux_swap_def nth_list_update_neq)
      finally show "a1 ! k = a ! k" .
    qed
    have as: "a1 ! nat s = a ! nat i"
      using ih(5) [rule_format, of "nat s"] Suc.prems(3) ilen by (simp add: nth)
    have closed: "\<forall>k::nat. s \<le> int k \<and> int k < right \<longrightarrow>
               (\<exists>k'::nat. s \<le> int k' \<and> int k' < right \<and> a1 ! k = a ! k')"
    proof (intro allI impI)
      fix k :: nat assume k: "s \<le> int k \<and> int k < right"
      show "\<exists>k'::nat. s \<le> int k' \<and> int k' < right \<and> a1 ! k = a ! k'"
      proof (cases "int k = s")
        case True
        then have "k = nat s" by simp
        with as show ?thesis using ilen lt Suc.prems(4) by (intro exI [of _ "nat i"]) auto
      next
        case False
        with k ih(6) obtain k' :: nat where k': "s + 1 \<le> int k'" "int k' < right" "a1 ! k = ?a ! k'"
          by (metis add.commute zless_add1_eq not_less order.order_iff_strict)
        then have kl: "k' < length a" using Suc.prems(6) by auto
        show ?thesis
        proof (cases "k' = nat i")
          case True
          then have "a1 ! k = a ! nat s" using k' kl by (simp add: nth)
          then show ?thesis using Suc.prems(3,4) lt by (intro exI [of _ "nat s"]) auto
        next
          case False
          moreover have "k' \<noteq> nat s" using k'(1) Suc.prems(3) by auto
          ultimately have "a1 ! k = a ! k'" using k' kl by (simp add: nth)
          then show ?thesis using k' by (intro exI [of _ k']) auto
        qed
      qed
    qed
    have low: "\<forall>k::nat. s \<le> int k \<and> int k < p \<longrightarrow> lt (a1 ! k) pivot"
    proof (intro allI impI)
      fix k :: nat assume k: "s \<le> int k \<and> int k < p"
      show "lt (a1 ! k) pivot"
      proof (cases "int k = s")
        case True
        then have "k = nat s" by simp
        with as \<open>lt (a ! nat i) pivot\<close> show ?thesis by simp
      next
        case False
        with k ih(7) show ?thesis by auto
      qed
    qed
    from step ih ms frame closed low show ?thesis by auto
  next
    case False
    have step: "partition_loop K (Some f) pivot right i s a ctx
                  = partition_loop K (Some f) pivot right (i + 1) s a c"
      using lt c False by (simp add: partition_loop_step [of K _ pivot right i])
    have pre': "\<forall>k::nat. s \<le> int k \<and> int k < i + 1 \<longrightarrow> \<not> lt (a ! k) pivot"
    proof (intro allI impI)
      fix k :: nat assume k: "s \<le> int k \<and> int k < i + 1"
      show "\<not> lt (a ! k) pivot"
      proof (cases "k = nat i")
        case True
        with False show ?thesis by simp
      next
        case False
        then have "int k < i" using k ilen(4) by arith
        then show ?thesis using pre [rule_format, of k] k by auto
      qed
    qed
    have "0 \<le> s" "s \<le> i + 1" "i + 1 \<le> right" "right \<le> int (length a)"
      using Suc.prems(3-6) lt by auto
    from Suc.hyps(1) [OF n Suc.prems(1,2) this pre', of c] step show ?thesis by simp
  qed
qed

lemma rtlb_aux_partition_answers:
  assumes an: "answers K f lt (set a)"
      and b: "0 \<le> left" "left \<le> right" "right < int (length a)"
  shows "\<exists>p a1 c1. rtlb_aux_partition K (Some f) left right a ctx = (False, p, a1, c1)
         \<and> left \<le> p \<and> p \<le> right \<and> mset a1 = mset a
         \<and> (\<forall>k::nat. int k < left \<or> right < int k \<longrightarrow> a1 ! k = a ! k)
         \<and> (\<forall>k::nat. left \<le> int k \<and> int k \<le> right \<longrightarrow>
               (\<exists>k'::nat. left \<le> int k' \<and> int k' \<le> right \<and> a1 ! k = a ! k'))
         \<and> (\<forall>k::nat. left \<le> int k \<and> int k < p \<longrightarrow> lt (a1 ! k) (a1 ! nat p))
         \<and> (\<forall>k::nat. p < int k \<and> int k \<le> right \<longrightarrow> \<not> lt (a1 ! k) (a1 ! nat p))"
proof -
  let ?pi = "left + (right - left) div 2"
  let ?pivot = "a ! nat ?pi"
  let ?a0 = "rtlb_aux_swap a ?pi right"
  have pi: "left \<le> ?pi" "?pi \<le> right" "0 \<le> ?pi" "nat ?pi < length a" "nat right < length a"
    "0 \<le> right"
    using b by auto
  have m0: "mset ?a0 = mset a" using pi by (simp add: swap_mset)
  then have s0: "set ?a0 = set a" by (rule mset_eq_setD)
  have nth0: "?a0 ! k = (if k = nat right then a ! nat ?pi else if k = nat ?pi then a ! nat right
                         else a ! k)" if "k < length a" for k
    using that by (simp add: swap_nth)
  have "answers K f lt (set ?a0)" "?pivot \<in> set ?a0" "0 \<le> left" "left \<le> left" "left \<le> right"
    "right \<le> int (length ?a0)"
    "\<forall>k::nat. left \<le> int k \<and> int k < left \<longrightarrow> \<not> lt (?a0 ! k) ?pivot"
    using an b pi s0 by auto
  from partition_loop_answers [OF this, of ctx]
  obtain p a1 c1 where loop:
    "partition_loop K (Some f) ?pivot right left left ?a0 ctx = (False, p, a1, c1)"
    "left \<le> p" "p \<le> right" "mset a1 = mset ?a0"
    "\<forall>k::nat. int k < left \<or> right \<le> int k \<longrightarrow> a1 ! k = ?a0 ! k"
    "\<forall>k::nat. left \<le> int k \<and> int k < right \<longrightarrow>
       (\<exists>k'::nat. left \<le> int k' \<and> int k' < right \<and> a1 ! k = ?a0 ! k')"
    "\<forall>k::nat. left \<le> int k \<and> int k < p \<longrightarrow> lt (a1 ! k) ?pivot"
    "\<forall>k::nat. p \<le> int k \<and> int k < right \<longrightarrow> \<not> lt (a1 ! k) ?pivot"
    by blast
  let ?a2 = "rtlb_aux_swap a1 p right"
  have len1: "length a1 = length a" using loop(4) m0 by (metis mset_eq_length)
  have p: "0 \<le> p" "nat p < length a1" "nat right < length a1"
    using loop(2,3) b len1 by auto
  have nth2: "?a2 ! k = (if k = nat right then a1 ! nat p else if k = nat p then a1 ! nat right
                         else a1 ! k)" if "k < length a" for k
    using that len1 by (simp add: swap_nth)
  have res: "rtlb_aux_partition K (Some f) left right a ctx = (False, p, ?a2, c1)"
    using loop(1) by (simp add: rtlb_aux_partition_def Let_def)
  have m2: "mset ?a2 = mset a" using p loop(4) m0 pi by (simp add: swap_mset)
  have a1r: "a1 ! nat right = ?pivot"
    using loop(5) [rule_format, of "nat right"] pi by (simp add: nth0)
  have a2p: "?a2 ! nat p = ?pivot" using a1r p len1 by (simp add: nth2)
  have frame: "\<forall>k::nat. int k < left \<or> right < int k \<longrightarrow> ?a2 ! k = a ! k"
  proof (intro allI impI)
    fix k :: nat assume k: "int k < left \<or> right < int k"
    then have "?a2 ! k = a1 ! k"
      using loop(2,3) b by (auto simp: rtlb_aux_swap_def nth_list_update_neq)
    also have "\<dots> = ?a0 ! k" using loop(5) k by auto
    also have "\<dots> = a ! k" using k pi b by (auto simp: rtlb_aux_swap_def nth_list_update_neq)
    finally show "?a2 ! k = a ! k" .
  qed
  have in0: "\<exists>k'::nat. left \<le> int k' \<and> int k' \<le> right \<and> ?a0 ! k = a ! k'"
    if "left \<le> int k" "int k \<le> right" for k :: nat
  proof -
    have kl: "k < length a" using that b by auto
    consider "k = nat right" | "k \<noteq> nat right" "k = nat ?pi" | "k \<noteq> nat right" "k \<noteq> nat ?pi"
      by blast
    then show ?thesis
    proof cases
      case 1
      then show ?thesis using kl pi by (intro exI [of _ "nat ?pi"]) (simp add: nth0)
    next
      case 2
      then show ?thesis using kl pi b by (intro exI [of _ "nat right"]) (simp add: nth0)
    next
      case 3
      then show ?thesis using kl that by (intro exI [of _ k]) (simp add: nth0)
    qed
  qed
  have in1: "\<exists>k'::nat. left \<le> int k' \<and> int k' \<le> right \<and> a1 ! k = a ! k'"
    if "left \<le> int k" "int k \<le> right" for k :: nat
  proof (cases "int k = right")
    case True
    then have "a1 ! k = ?a0 ! k" using loop(5) by auto
    with in0 [OF that] show ?thesis by simp
  next
    case False
    with that loop(6) obtain k' :: nat where
      "left \<le> int k'" "int k' < right" "a1 ! k = ?a0 ! k'" by fastforce
    with in0 [of k'] show ?thesis by auto
  qed
  have closed: "\<forall>k::nat. left \<le> int k \<and> int k \<le> right \<longrightarrow>
               (\<exists>k'::nat. left \<le> int k' \<and> int k' \<le> right \<and> ?a2 ! k = a ! k')"
  proof (intro allI impI)
    fix k :: nat assume k: "left \<le> int k \<and> int k \<le> right"
    then have kl: "k < length a" using b by auto
    consider "k = nat right" | "k \<noteq> nat right" "k = nat p" | "k \<noteq> nat right" "k \<noteq> nat p"
      by blast
    then show "\<exists>k'::nat. left \<le> int k' \<and> int k' \<le> right \<and> ?a2 ! k = a ! k'"
    proof cases
      case 1
      then have "?a2 ! k = a1 ! nat p" using kl by (simp add: nth2)
      with in1 [of "nat p"] loop(2,3) p show ?thesis by auto
    next
      case 2
      then have "?a2 ! k = a1 ! nat right" using kl by (simp add: nth2)
      with in1 [of "nat right"] pi b show ?thesis by auto
    next
      case 3
      then have "?a2 ! k = a1 ! k" using kl by (simp add: nth2)
      with in1 [of k] k show ?thesis by auto
    qed
  qed
  have low: "\<forall>k::nat. left \<le> int k \<and> int k < p \<longrightarrow> lt (?a2 ! k) (?a2 ! nat p)"
  proof (intro allI impI)
    fix k :: nat assume k: "left \<le> int k \<and> int k < p"
    then have "k < length a" "k \<noteq> nat right" "k \<noteq> nat p" using loop(2,3) b by arith+
    then have "?a2 ! k = a1 ! k" by (simp add: nth2)
    with loop(7) k a2p show "lt (?a2 ! k) (?a2 ! nat p)" by auto
  qed
  have high: "\<forall>k::nat. p < int k \<and> int k \<le> right \<longrightarrow> \<not> lt (?a2 ! k) (?a2 ! nat p)"
  proof (intro allI impI)
    fix k :: nat assume k: "p < int k \<and> int k \<le> right"
    then have kl: "k < length a" "k \<noteq> nat p" using b loop(2) by arith+
    show "\<not> lt (?a2 ! k) (?a2 ! nat p)"
    proof (cases "k = nat right")
      case True
      then have "?a2 ! k = a1 ! nat p" using kl by (simp add: nth2)
      moreover have "\<not> lt (a1 ! nat p) ?pivot"
        using loop(8) [rule_format, of "nat p"] k p True by auto
      ultimately show ?thesis using a2p by simp
    next
      case False
      then have "?a2 ! k = a1 ! k" using kl by (simp add: nth2)
      moreover have "int k < right" using k False by arith
      then have "\<not> lt (a1 ! k) ?pivot"
        using loop(8) [rule_format, of k] k by auto
      ultimately show ?thesis using a2p by simp
    qed
  qed
  from res loop(2,3) m2 frame closed low high show ?thesis by blast
qed

lemma rtlb_aux_qsort_answers:
  assumes "answers K f lt (set a)"
      and "\<forall>x\<in>set a. \<forall>y\<in>set a. \<forall>z\<in>set a. lt x y \<and> lt y z \<longrightarrow> lt x z"
      and "\<forall>x\<in>set a. \<forall>y\<in>set a. lt x y \<longrightarrow> \<not> lt y x"
      and "0 \<le> left" and "right < int (length a)"
  shows "\<exists>a1 c1. rtlb_aux_qsort K (Some f) left right a ctx = (0, a1, c1)
         \<and> mset a1 = mset a
         \<and> (\<forall>k::nat. int k < left \<or> right < int k \<longrightarrow> a1 ! k = a ! k)
         \<and> (\<forall>k::nat. left \<le> int k \<and> int k \<le> right \<longrightarrow>
               (\<exists>k'::nat. left \<le> int k' \<and> int k' \<le> right \<and> a1 ! k = a ! k'))
         \<and> (\<forall>j k::nat. left \<le> int j \<and> j < k \<and> int k \<le> right \<longrightarrow> \<not> lt (a1 ! k) (a1 ! j))"
  using assms
proof (induction "nat (right - left + 1)" arbitrary: left right a ctx rule: less_induct)
  case less
  note an = less.prems(1) and tr = less.prems(2) and as = less.prems(3)
  note b = less.prems(4,5)
  show ?case
  proof (cases "left \<ge> right")
    case True
    then have "rtlb_aux_qsort K (Some f) left right a ctx = (0, a, ctx)"
      by (simp add: rtlb_aux_qsort.simps [of _ _ left right])
    moreover have "\<forall>j k::nat. left \<le> int j \<and> j < k \<and> int k \<le> right \<longrightarrow> \<not> lt (a ! k) (a ! j)"
      using True by auto
    ultimately show ?thesis by auto
  next
    case False
    then have lr: "left \<le> right" by simp
    from rtlb_aux_partition_answers [OF an b(1) lr b(2), of ctx]
    obtain p a1 c1 where part:
      "rtlb_aux_partition K (Some f) left right a ctx = (False, p, a1, c1)"
      "left \<le> p" "p \<le> right" "mset a1 = mset a"
      "\<forall>k::nat. int k < left \<or> right < int k \<longrightarrow> a1 ! k = a ! k"
      "\<forall>k::nat. left \<le> int k \<and> int k \<le> right \<longrightarrow>
               (\<exists>k'::nat. left \<le> int k' \<and> int k' \<le> right \<and> a1 ! k = a ! k')"
      "\<forall>k::nat. left \<le> int k \<and> int k < p \<longrightarrow> lt (a1 ! k) (a1 ! nat p)"
      "\<forall>k::nat. p < int k \<and> int k \<le> right \<longrightarrow> \<not> lt (a1 ! k) (a1 ! nat p)"
      by (elim exE conjE)
    have set1: "set a1 = set a" using part(4) by (rule mset_eq_setD)
    have len1: "length a1 = length a" using part(4) by (rule mset_eq_length)
    have d1: "nat (p - 1 - left + 1) < nat (right - left + 1)" using part(2,3) by auto
    have an1: "answers K f lt (set a1)" using an unfolding set1 .
    have tr1: "\<forall>x\<in>set a1. \<forall>y\<in>set a1. \<forall>z\<in>set a1. lt x y \<and> lt y z \<longrightarrow> lt x z"
      using tr unfolding set1 .
    have as1: "\<forall>x\<in>set a1. \<forall>y\<in>set a1. lt x y \<longrightarrow> \<not> lt y x" using as unfolding set1 .
    have b1: "p - 1 < int (length a1)" using b part(3) len1 by simp
    from less.hyps [OF d1 an1 tr1 as1 b(1) b1, of c1]
    obtain a2 c2 where q1:
      "rtlb_aux_qsort K (Some f) left (p - 1) a1 c1 = (0, a2, c2)"
      "mset a2 = mset a1"
      "\<forall>k::nat. int k < left \<or> p - 1 < int k \<longrightarrow> a2 ! k = a1 ! k"
      "\<forall>k::nat. left \<le> int k \<and> int k \<le> p - 1 \<longrightarrow>
               (\<exists>k'::nat. left \<le> int k' \<and> int k' \<le> p - 1 \<and> a2 ! k = a1 ! k')"
      "\<forall>j k::nat. left \<le> int j \<and> j < k \<and> int k \<le> p - 1 \<longrightarrow> \<not> lt (a2 ! k) (a2 ! j)"
      by (elim exE conjE)
    have set2: "set a2 = set a" using mset_eq_setD [OF q1(2)] set1 by simp
    have len2: "length a2 = length a" using mset_eq_length [OF q1(2)] len1 by simp
    have d2: "nat (right - (p + 1) + 1) < nat (right - left + 1)" using part(2,3) by auto
    have an2: "answers K f lt (set a2)" using an unfolding set2 .
    have tr2: "\<forall>x\<in>set a2. \<forall>y\<in>set a2. \<forall>z\<in>set a2. lt x y \<and> lt y z \<longrightarrow> lt x z"
      using tr unfolding set2 .
    have as2: "\<forall>x\<in>set a2. \<forall>y\<in>set a2. lt x y \<longrightarrow> \<not> lt y x" using as unfolding set2 .
    have b2: "0 \<le> p + 1" "right < int (length a2)" using b part(2) len2 by simp_all
    from less.hyps [OF d2 an2 tr2 as2 b2, of c2]
    obtain a3 c3 where q2:
      "rtlb_aux_qsort K (Some f) (p + 1) right a2 c2 = (0, a3, c3)"
      "mset a3 = mset a2"
      "\<forall>k::nat. int k < p + 1 \<or> right < int k \<longrightarrow> a3 ! k = a2 ! k"
      "\<forall>k::nat. p + 1 \<le> int k \<and> int k \<le> right \<longrightarrow>
               (\<exists>k'::nat. p + 1 \<le> int k' \<and> int k' \<le> right \<and> a3 ! k = a2 ! k')"
      "\<forall>j k::nat. p + 1 \<le> int j \<and> j < k \<and> int k \<le> right \<longrightarrow> \<not> lt (a3 ! k) (a3 ! j)"
      by (elim exE conjE)
    have res: "rtlb_aux_qsort K (Some f) left right a ctx = (0, a3, c3)"
      using False part(1) q1(1) q2(1) by (simp add: rtlb_aux_qsort.simps [of _ _ left right a ctx])
    have m3: "mset a3 = mset a" using q2(2) q1(2) part(4) by simp
    then have set3: "set a3 = set a" by (rule mset_eq_setD)
    have len3: "length a3 = length a" using m3 by (rule mset_eq_length)
    let ?pivot = "a1 ! nat p"
    have p0: "0 \<le> p" "nat p < length a" using part(2,3) b by auto
    have piv: "?pivot \<in> set a" using nth_mem [of "nat p" a1] p0 len1 set1 by simp
    have frame: "\<forall>k::nat. int k < left \<or> right < int k \<longrightarrow> a3 ! k = a ! k"
    proof (intro allI impI)
      fix k :: nat assume k: "int k < left \<or> right < int k"
      then have "a3 ! k = a2 ! k" using q2(3) part(2) by auto
      also have "\<dots> = a1 ! k" using q1(3) k part(3) by auto
      also have "\<dots> = a ! k" using part(5) k by auto
      finally show "a3 ! k = a ! k" .
    qed
    have mid: "a3 ! nat p = ?pivot"
    proof -
      have "a3 ! nat p = a2 ! nat p" using q2(3) [rule_format, of "nat p"] p0 by auto
      also have "\<dots> = a1 ! nat p" using q1(3) [rule_format, of "nat p"] p0 by auto
      finally show ?thesis .
    qed
    have low: "\<exists>k'::nat. left \<le> int k' \<and> int k' < p \<and> a3 ! k = a1 ! k'"
      if "left \<le> int k" "int k < p" for k :: nat
    proof -
      have "a3 ! k = a2 ! k" using q2(3) [rule_format, of k] that by simp
      moreover have "left \<le> int k \<and> int k \<le> p - 1" using that by simp
      from q1(4) [rule_format, OF this]
      obtain k' :: nat where "left \<le> int k'" "int k' \<le> p - 1" "a2 ! k = a1 ! k'" by blast
      ultimately show ?thesis by (intro exI [of _ k']) simp
    qed
    have high: "\<exists>k'::nat. p < int k' \<and> int k' \<le> right \<and> a3 ! k = a1 ! k'"
      if "p < int k" "int k \<le> right" for k :: nat
    proof -
      have "p + 1 \<le> int k \<and> int k \<le> right" using that by simp
      from q2(4) [rule_format, OF this]
      obtain k' :: nat where k': "p + 1 \<le> int k'" "int k' \<le> right" "a3 ! k = a2 ! k'"
        by blast
      moreover have "a2 ! k' = a1 ! k'" using q1(3) [rule_format, of k'] k'(1) by simp
      ultimately show ?thesis by (intro exI [of _ k']) simp
    qed
    have L: "lt (a3 ! k) ?pivot" if "left \<le> int k" "int k < p" for k :: nat
      using low [OF that] part(7) by auto
    have R: "\<not> lt (a3 ! k) ?pivot" if "p < int k" "int k \<le> right" for k :: nat
      using high [OF that] part(8) by auto
    have mem: "a3 ! k \<in> set a" if "int k \<le> right" for k :: nat
    proof -
      have "k < length a3" using that b(2) len3 by simp
      then have "a3 ! k \<in> set a3" by (rule nth_mem)
      then show ?thesis by (simp only: set3)
    qed
    have closed: "\<forall>k::nat. left \<le> int k \<and> int k \<le> right \<longrightarrow>
               (\<exists>k'::nat. left \<le> int k' \<and> int k' \<le> right \<and> a3 ! k = a ! k')"
    proof (intro allI impI)
      fix k :: nat assume k: "left \<le> int k \<and> int k \<le> right"
      have "\<exists>k'::nat. left \<le> int k' \<and> int k' \<le> right \<and> a3 ! k = a1 ! k'"
      proof -
        consider "int k < p" | "int k = p" | "p < int k" by linarith
        then show ?thesis
        proof cases
          case 1
          with low [of k] k obtain k' :: nat where
            "left \<le> int k'" "int k' < p" "a3 ! k = a1 ! k'" by blast
          with part(3) show ?thesis by (intro exI [of _ k']) simp
        next
          case 2
          then have "k = nat p" by simp
          with mid k show ?thesis by (intro exI [of _ k]) auto
        next
          case 3
          with high [of k] k obtain k' :: nat where
            "p < int k'" "int k' \<le> right" "a3 ! k = a1 ! k'" by blast
          with part(2) show ?thesis by (intro exI [of _ k']) simp
        qed
      qed
      then obtain k' :: nat where k': "left \<le> int k'" "int k' \<le> right" "a3 ! k = a1 ! k'"
        by blast
      with part(6) [rule_format, of k'] show
        "\<exists>k'::nat. left \<le> int k' \<and> int k' \<le> right \<and> a3 ! k = a ! k'" by auto
    qed
    have sorted: "\<forall>j k::nat. left \<le> int j \<and> j < k \<and> int k \<le> right \<longrightarrow> \<not> lt (a3 ! k) (a3 ! j)"
    proof (intro allI impI)
      fix j k :: nat assume jk: "left \<le> int j \<and> j < k \<and> int k \<le> right"
      then have mj: "a3 ! j \<in> set a" and mk: "a3 ! k \<in> set a" using mem by auto
      consider "int k < p" | "int k = p" | "int j < p" "p < int k" | "int j = p" | "p < int j"
        using jk by linarith
      then show "\<not> lt (a3 ! k) (a3 ! j)"
      proof cases
        case 1
        then have "a3 ! k = a2 ! k" "a3 ! j = a2 ! j" using q2(3) jk by auto
        moreover have "\<not> lt (a2 ! k) (a2 ! j)" using q1(5) [rule_format, of j k] jk 1 by auto
        ultimately show ?thesis by simp
      next
        case 2
        then have "k = nat p" by simp
        then have "a3 ! k = ?pivot" using mid by simp
        moreover have "lt (a3 ! j) ?pivot" using L [of j] jk 2 by simp
        ultimately show ?thesis using as [rule_format, OF mj piv] by simp
      next
        case 3
        then have l: "lt (a3 ! j) ?pivot" and r: "\<not> lt (a3 ! k) ?pivot"
          using L [of j] R [of k] jk by simp_all
        show ?thesis
        proof
          assume "lt (a3 ! k) (a3 ! j)"
          with l have "lt (a3 ! k) (a3 ! j) \<and> lt (a3 ! j) ?pivot" by simp
          with tr [rule_format, OF mk mj piv] r show False by simp
        qed
      next
        case 4
        then have "j = nat p" by simp
        then have "a3 ! j = ?pivot" using mid by simp
        moreover have "\<not> lt (a3 ! k) ?pivot" using R [of k] jk 4 by simp
        ultimately show ?thesis by simp
      next
        case 5
        then show ?thesis using q2(5) [rule_format, of j k] jk by auto
      qed
    qed
    from res m3 frame closed sorted show ?thesis by blast
  qed
qed

lemma sort_logged:
  assumes f: "isfunc f"
      and run: "rtlb_sort (logged K) ret [SpnArray a, f] (with_log ctx []) = (st, r, argv', c1)"
  shows "rtlb_sort K ret [SpnArray a, f] ctx = (st, r, argv', unlog c1)
         \<and> (st = 0 \<or> st = - 1)
         \<and> (st = 0) = list_all good_call (calls c1)
         \<and> (st \<noteq> 0 \<longrightarrow> aborted K f (calls c1) c1)"
proof -
  let ?right = "int (length a) - 1"
  obtain s a1 c where q:
    "rtlb_aux_qsort (logged K) (Some f) 0 ?right a (with_log ctx []) = (s, a1, c)"
    by (cases "rtlb_aux_qsort (logged K) (Some f) 0 ?right a (with_log ctx [])") auto
  with f run have res: "st = s" "r = ret" "argv' = [SpnArray a1, f]" "c1 = c"
    by (auto simp: rtlb_sort_def)
  from rtlb_aux_qsort_unlog [OF q]
  have "rtlb_aux_qsort K (Some f) 0 ?right a ctx = (s, a1, unlog c)" by simp
  with f have 1: "rtlb_sort K ret [SpnArray a, f] ctx = (s, ret, [SpnArray a1, f], unlog c)"
    by (simp add: rtlb_sort_def)
  from rtlb_aux_qsort_calls [OF q]
  obtain new where new: "calls c = new" "s = 0 \<or> s = - 1"
    "s = 0 \<longrightarrow> list_all good_call new" "s \<noteq> 0 \<longrightarrow> aborted K f new c"
    by auto
  have "\<not> list_all good_call new" if "s \<noteq> 0"
  proof -
    from that new(4) have "new \<noteq> []" "\<not> good_call (last new)" by (simp_all add: aborted_def)
    then have "last new \<in> set new" "\<not> good_call (last new)" by simp_all
    then show ?thesis unfolding list_all_iff by blast
  qed
  with new(3) have 3: "(s = 0) = list_all good_call new" by blast
  have 4: "calls c1 = new" using new(1) res(4) by simp
  have 5: "st \<noteq> 0 \<longrightarrow> aborted K f (calls c1) c1" using new(4) res(1,4) 4 by simp
  have 6: "(st = 0) = list_all good_call (calls c1)" using 3 res(1) 4 by simp
  have 7: "st = 0 \<or> st = - 1" using new(2) res(1) by simp
  have 8: "rtlb_sort K ret [SpnArray a, f] ctx = (st, r, argv', unlog c1)"
    using 1 res by simp
  from 8 7 6 5 show ?thesis by (intro conjI)
qed

lemma sort_answers:
  assumes f: "isfunc f"
      and an: "answers K f lt (set a)"
      and tr: "\<forall>x\<in>set a. \<forall>y\<in>set a. \<forall>z\<in>set a. lt x y \<and> lt y z \<longrightarrow> lt x z"
      and as: "\<forall>x\<in>set a. \<forall>y\<in>set a. lt x y \<longrightarrow> \<not> lt y x"
  shows "\<exists>a1 c. rtlb_sort K ret [SpnArray a, f] ctx = (0, ret, [SpnArray a1, f], c)
           \<and> mset a1 = mset a \<and> sorted_wrt (\<lambda>x y. \<not> lt y x) a1"
proof -
  let ?right = "int (length a) - 1"
  have "(0::int) \<le> 0" "?right < int (length a)" by simp_all
  from rtlb_aux_qsort_answers [OF an tr as this, of ctx]
  obtain a1 c where q: "rtlb_aux_qsort K (Some f) 0 ?right a ctx = (0, a1, c)"
    "mset a1 = mset a"
    "\<forall>j k::nat. 0 \<le> int j \<and> j < k \<and> int k \<le> ?right \<longrightarrow> \<not> lt (a1 ! k) (a1 ! j)"
    by (elim exE conjE)
  have len: "length a1 = length a" using q(2) by (rule mset_eq_length)
  have "sorted_wrt (\<lambda>x y. \<not> lt y x) a1"
    unfolding sorted_wrt_iff_nth_less
  proof (intro allI impI)
    fix i j :: nat assume "i < j" "j < length a1"
    then have "0 \<le> int i \<and> i < j \<and> int j \<le> ?right" using len by auto
    from q(3) [rule_format, OF this] show "\<not> lt (a1 ! j) (a1 ! i)" .
  qed
  moreover from f q(1) have "rtlb_sort K ret [SpnArray a, f] ctx = (0, ret, [SpnArray a1, f], c)"
    by (simp add: rtlb_sort_def)
  ultimately show ?thesis using q(2) by blast
qed

text \<open>
  C7: (1) without a comparator, an array with two elements that are not mutually
  comparable makes \<open>sort\<close> return -1; the only change to the context is that the virtual
  machine is given, by \<open>spn_vm_seterrmsg\<close>, the message "attempt to sort uncomparable
  values of type %s and %s" with the type names of two elements of the array that are not
  comparable. (2) With a comparator \<open>f\<close>, run under a virtual machine that records its
  calls: the record does not change the run; the status is 0 or -1; it is 0 exactly when
  every call of the comparator made during the run returned normally with a Boolean; and
  when it is -1, the call that failed or returned something else is the last one: if it
  failed, the category of the context is \<open>Runtime\<close> and the machine is in the state that
  call left; if it returned normally, the machine is in that state with the message
  "comparator function must return a Boolean" set by \<open>spn_vm_seterrmsg\<close>. (3) The
  comparator is read as less-than: if \<open>f\<close> answers, on the elements of the array, with the
  Boolean \<open>lt x y\<close> of a transitive and asymmetric relation, then \<open>sort\<close> returns 0 and
  leaves a permutation of the array in which no element is less than an element before it.
\<close>

theorem sort_comparisons:
  "(\<forall>i j. i < j \<and> j < length a \<and> \<not> spn_values_comparable (a ! i) (a ! j) \<longrightarrow>
      (\<exists>x y a1. x \<in> set a \<and> y \<in> set a \<and> \<not> spn_values_comparable x y \<and>
         rtlb_sort K ret [SpnArray a] ctx =
           (- 1, ret, [SpnArray a1],
            ctx\<lparr>vm := spn_vm_seterrmsg K (vm ctx)
                         ''attempt to sort uncomparable values of type %s and %s''
                         [CStr (spn_type_name K x), CStr (spn_type_name K y)]\<rparr>)))
   \<and> (isfunc f \<and> rtlb_sort (logged K) ret [SpnArray a, f] (with_log ctx []) = (st, r, argv', c1) \<longrightarrow>
        rtlb_sort K ret [SpnArray a, f] ctx = (st, r, argv', unlog c1)
        \<and> (st = 0 \<or> st = - 1)
        \<and> (st = 0) = list_all good_call (calls c1)
        \<and> (st \<noteq> 0 \<longrightarrow> aborted K f (calls c1) c1))
   \<and> (isfunc f \<and> answers K f lt (set a)
        \<and> (\<forall>x\<in>set a. \<forall>y\<in>set a. \<forall>z\<in>set a. lt x y \<and> lt y z \<longrightarrow> lt x z)
        \<and> (\<forall>x\<in>set a. \<forall>y\<in>set a. lt x y \<longrightarrow> \<not> lt y x) \<longrightarrow>
        (\<exists>a1 c. rtlb_sort K ret [SpnArray a, f] ctx = (0, ret, [SpnArray a1, f], c)
           \<and> mset a1 = mset a \<and> sorted_wrt (\<lambda>x y. \<not> lt y x) a1))"
proof (intro conjI allI impI)
  fix i j
  assume "i < j \<and> j < length a \<and> \<not> spn_values_comparable (a ! i) (a ! j)"
  then have "i < j" "j < length a" "\<not> spn_values_comparable (a ! i) (a ! j)" by simp_all
  from sort_uncomparable [OF this, of K ret ctx]
  show "\<exists>x y a1. x \<in> set a \<and> y \<in> set a \<and> \<not> spn_values_comparable x y \<and>
         rtlb_sort K ret [SpnArray a] ctx =
           (- 1, ret, [SpnArray a1],
            ctx\<lparr>vm := spn_vm_seterrmsg K (vm ctx)
                         ''attempt to sort uncomparable values of type %s and %s''
                         [CStr (spn_type_name K x), CStr (spn_type_name K y)]\<rparr>)"
    unfolding spn_ctx_runtime_error_def .
next
  assume h: "isfunc f \<and> rtlb_sort (logged K) ret [SpnArray a, f] (with_log ctx []) = (st, r, argv', c1)"
  then have f: "isfunc f"
    and run: "rtlb_sort (logged K) ret [SpnArray a, f] (with_log ctx []) = (st, r, argv', c1)"
    by simp_all
  note L = sort_logged [OF f run]
  show "rtlb_sort K ret [SpnArray a, f] ctx = (st, r, argv', unlog c1)"
    by (rule L [THEN conjunct1])
  show "st = 0 \<or> st = - 1"
    by (rule L [THEN conjunct2, THEN conjunct1])
  show "(st = 0) = list_all good_call (calls c1)"
    by (rule L [THEN conjunct2, THEN conjunct2, THEN conjunct1])
  show "aborted K f (calls c1) c1" if "st \<noteq> 0"
    by (rule L [THEN conjunct2, THEN conjunct2, THEN conjunct2, rule_format, OF that])
next
  assume h: "isfunc f \<and> answers K f lt (set a)
        \<and> (\<forall>x\<in>set a. \<forall>y\<in>set a. \<forall>z\<in>set a. lt x y \<and> lt y z \<longrightarrow> lt x z)
        \<and> (\<forall>x\<in>set a. \<forall>y\<in>set a. lt x y \<longrightarrow> \<not> lt y x)"
  show "\<exists>a1 c. rtlb_sort K ret [SpnArray a, f] ctx = (0, ret, [SpnArray a1, f], c)
           \<and> mset a1 = mset a \<and> sorted_wrt (\<lambda>x y. \<not> lt y x) a1"
    by (rule sort_answers [OF h [THEN conjunct1] h [THEN conjunct2, THEN conjunct1]
          h [THEN conjunct2, THEN conjunct2, THEN conjunct1]
          h [THEN conjunct2, THEN conjunct2, THEN conjunct2]])
qed

theorem sort_comparisons_witness:
  "rtlb_sort K0 SpnNil [SpnArray [SpnInt 1, SpnString ''a'']] ctx0
     = (- 1, SpnNil, [SpnArray [SpnString ''a'', SpnInt 1]],
        ctx0\<lparr>vm := Some (''attempt to sort uncomparable values of type %s and %s'',
                          [CStr ''string'', CStr ''int''])\<rparr>)
   \<and> rtlb_sort K0 SpnNil [SpnArray [SpnInt 3, SpnInt 1, SpnInt 2], SpnFunc (Native ''one'')] ctx0
     = (- 1, SpnNil, [SpnArray [SpnInt 3, SpnInt 2, SpnInt 1], SpnFunc (Native ''one'')],
        ctx0\<lparr>vm := Some (''comparator function must return a Boolean'', [])\<rparr>)
   \<and> aborted K0 (SpnFunc (Native ''one'')) [([SpnInt 3, SpnInt 1], 0, SpnInt 1)]
        (with_log (ctx0\<lparr>vm := Some (''comparator function must return a Boolean'', [])\<rparr>)
           [([SpnInt 3, SpnInt 1], 0, SpnInt 1)])
   \<and> rtlb_sort K0 SpnNil [SpnArray [SpnInt 3, SpnInt 1, SpnInt 2], SpnFunc (Native ''nope'')] ctx0
     = (- 1, SpnNil, [SpnArray [SpnInt 3, SpnInt 2, SpnInt 1], SpnFunc (Native ''nope'')],
        ctx0\<lparr>vm := Some (''no such function'', []), errtype := SPN_ERROR_RUNTIME\<rparr>)
   \<and> rtlb_sort K0 SpnNil [SpnArray [SpnInt 3, SpnInt 1, SpnInt 2], SpnFunc (Native ''less'')] ctx0
     = (0, SpnNil, [SpnArray [SpnInt 1, SpnInt 2, SpnInt 3], SpnFunc (Native ''less'')], ctx0)
   \<and> rtlb_sort K0 SpnNil [SpnArray [SpnInt 3, SpnInt 1, SpnInt 2], SpnFunc (Native ''greater'')] ctx0
     = (0, SpnNil, [SpnArray [SpnInt 3, SpnInt 2, SpnInt 1], SpnFunc (Native ''greater'')], ctx0)
   \<and> (\<exists>a1 c. rtlb_sort K0 SpnNil [SpnArray [SpnInt 3, SpnInt 1, SpnInt 2], SpnFunc (Native ''less'')]
                 ctx0 = (0, SpnNil, [SpnArray a1, SpnFunc (Native ''less'')], c)
          \<and> mset a1 = mset [SpnInt 3, SpnInt 1, SpnInt 2]
          \<and> sorted_wrt (\<lambda>x y. \<not> intvalue y < intvalue x) a1)"
proof -
  let ?arr = "[SpnInt 3, SpnInt 1, SpnInt 2]"
  let ?one = "SpnFunc (Native ''one'')"
  let ?less = "SpnFunc (Native ''less'')"
  let ?entry = "([SpnInt 3, SpnInt 1], 0 :: int, SpnInt 1)"
  let ?err = "ctx0\<lparr>vm := Some (''comparator function must return a Boolean'', [])\<rparr>"
  have e1: "rtlb_sort K0 SpnNil [SpnArray [SpnInt 1, SpnString ''a'']] ctx0
     = (- 1, SpnNil, [SpnArray [SpnString ''a'', SpnInt 1]],
        ctx0\<lparr>vm := Some (''attempt to sort uncomparable values of type %s and %s'',
                          [CStr ''string'', CStr ''int''])\<rparr>)"
    by code_simp
  have e2: "rtlb_sort (logged K0) SpnNil [SpnArray ?arr, ?one] (with_log ctx0 [])
     = (- 1, SpnNil, [SpnArray [SpnInt 3, SpnInt 2, SpnInt 1], ?one], with_log ?err [?entry])"
    by code_simp
  have e3: "rtlb_sort K0 SpnNil [SpnArray ?arr, SpnFunc (Native ''nope'')] ctx0
     = (- 1, SpnNil, [SpnArray [SpnInt 3, SpnInt 2, SpnInt 1], SpnFunc (Native ''nope'')],
        ctx0\<lparr>vm := Some (''no such function'', []), errtype := SPN_ERROR_RUNTIME\<rparr>)"
    by code_simp
  have e4: "rtlb_sort K0 SpnNil [SpnArray ?arr, ?less] ctx0
     = (0, SpnNil, [SpnArray [SpnInt 1, SpnInt 2, SpnInt 3], ?less], ctx0)"
    by code_simp
  have e5: "rtlb_sort K0 SpnNil [SpnArray ?arr, SpnFunc (Native ''greater'')] ctx0
     = (0, SpnNil, [SpnArray [SpnInt 3, SpnInt 2, SpnInt 1], SpnFunc (Native ''greater'')], ctx0)"
    by code_simp
  have h2: "isfunc ?one \<and> rtlb_sort (logged K0) SpnNil [SpnArray ?arr, ?one] (with_log ctx0 [])
     = (- 1, SpnNil, [SpnArray [SpnInt 3, SpnInt 2, SpnInt 1], ?one], with_log ?err [?entry])"
    using e2 by simp
  have h3: "isfunc ?less \<and> answers K0 ?less (\<lambda>x y. intvalue x < intvalue y) (set ?arr)
        \<and> (\<forall>x\<in>set ?arr. \<forall>y\<in>set ?arr. \<forall>z\<in>set ?arr.
              intvalue x < intvalue y \<and> intvalue y < intvalue z \<longrightarrow> intvalue x < intvalue z)
        \<and> (\<forall>x\<in>set ?arr. \<forall>y\<in>set ?arr. intvalue x < intvalue y \<longrightarrow> \<not> intvalue y < intvalue x)"
    by (simp add: answers_def)
  note T2 = sort_comparisons [where K = K0 and ret = SpnNil and ctx = ctx0 and a = ?arr
      and f = ?one and st = "- 1" and r = SpnNil
      and argv' = "[SpnArray [SpnInt 3, SpnInt 2, SpnInt 1], ?one]"
      and ?c1.0 = "with_log ?err [?entry]",
      THEN conjunct2, THEN conjunct1, rule_format, OF h2]
  note T3 = sort_comparisons [where K = K0 and ret = SpnNil and ctx = ctx0 and a = ?arr
      and f = ?less and lt = "\<lambda>x y. intvalue x < intvalue y",
      THEN conjunct2, THEN conjunct2, rule_format, OF h3]
  have r2: "rtlb_sort K0 SpnNil [SpnArray ?arr, ?one] ctx0
     = (- 1, SpnNil, [SpnArray [SpnInt 3, SpnInt 2, SpnInt 1], ?one], ?err)"
    using T2 [THEN conjunct1] by simp
  have r3: "aborted K0 ?one [?entry] (with_log ?err [?entry])"
    using T2 [THEN conjunct2, THEN conjunct2, THEN conjunct2] by simp
  from e1 r2 r3 e3 e4 e5 T3 show ?thesis by (intro conjI)
qed

end
